theory Spec2Isabelle
  imports Main "HOL-Library.Word"
begin

unbundle bit_operations_syntax

section \<open>Data model\<close>

text \<open>
  The element of \<^verbatim>\<open>source/codecs/ber.ts\<close>: tag class, construction, tag number, value
  octets and the transient recursion counter.  Octets are 8-bit words (a \<^verbatim>\<open>Uint8Array\<close>
  holds nothing else); cursors, lengths and tag numbers are natural numbers, and the
  places where the source computes on 32-bit integers are written out.

  The source's names \<^verbatim>\<open>context\<close>, \<^verbatim>\<open>private\<close> and \<^verbatim>\<open>value\<close> are reserved words here; they
  appear as \<open>context_specific\<close>, \<open>private_use\<close> and \<open>val\<close>.
\<close>

type_synonym byte = "8 word"

datatype ASN1TagClass = universal | application | context_specific | private_use

datatype ASN1Construction = primitive | constructed

datatype LengthEncodingPreference = definite | indefinite

datatype asn1_error =
    ASN1Error
  | ASN1TruncationError
  | ASN1OverflowError
  | ASN1PaddingError
  | ASN1ConstructionError
  | ASN1SizeError
  | ASN1UndefinedError
  | ASN1RecursionError

record BERElement =
  recursionCount :: nat
  tagClass :: ASN1TagClass
  construction :: ASN1Construction
  tagNumber :: nat
  val :: "byte list"

text \<open>
  Modelled from the spec: \<^verbatim>\<open>ASN1Element.nestingRecursionLimit\<close> is declared in
  \<^verbatim>\<open>dist/asn1.d.ts\<close> but its value is not among the sources; the spec fixes
  \<^verbatim>\<open>NESTING_LIMIT = 5\<close>.
\<close>

definition nestingRecursionLimit :: nat where
  "nestingRecursionLimit = 5"

text \<open>
  The numeric values of the enumerations (\<^verbatim>\<open>values.ts\<close> is not among the sources): the two
  class bits and the construction bit, as the \<^verbatim>\<open>switch\<close> of \<^verbatim>\<open>fromBytes\<close> reads them back.
\<close>

fun tagClassValue :: "ASN1TagClass \<Rightarrow> nat" where
  "tagClassValue universal = 0"
| "tagClassValue application = 1"
| "tagClassValue context_specific = 2"
| "tagClassValue private_use = 3"

fun constructionValue :: "ASN1Construction \<Rightarrow> nat" where
  "constructionValue primitive = 0"
| "constructionValue constructed = 1"

text \<open>The constructor: \<^verbatim>\<open>new BERElement(tagClass, construction, tagNumber)\<close>, value empty.\<close>

definition BERElement_new :: "ASN1TagClass \<Rightarrow> ASN1Construction \<Rightarrow> nat \<Rightarrow> BERElement" where
  "BERElement_new tc c n =
     \<lparr>recursionCount = 0, tagClass = tc, construction = c, tagNumber = n, val = []\<rparr>"

section \<open>JavaScript array access\<close>

text \<open>
  \<^verbatim>\<open>bytes[i]\<close> is \<^verbatim>\<open>undefined\<close> out of range (\<open>None\<close>); \<^verbatim>\<open>undefined & m\<close> is 0;
  \<^verbatim>\<open>bytes.slice(a, b)\<close> clamps at the end of the array.
\<close>

definition js_index :: "byte list \<Rightarrow> nat \<Rightarrow> byte option" where
  "js_index bytes i = (if i < length bytes then Some (bytes ! i) else None)"

definition js_and :: "byte option \<Rightarrow> byte \<Rightarrow> byte" where
  "js_and x m = (case x of None \<Rightarrow> 0 | Some b \<Rightarrow> b AND m)"

definition slice_bytes :: "byte list \<Rightarrow> nat \<Rightarrow> nat \<Rightarrow> byte list" where
  "slice_bytes bytes a b = take (b - a) (drop a bytes)"

text \<open>\<^verbatim>\<open>x << k\<close> on a number: the operand is taken as a signed 32-bit integer.\<close>

definition js_shl32 :: "int \<Rightarrow> nat \<Rightarrow> int" where
  "js_shl32 x k = sint (push_bit k (word_of_int x :: 32 word))"

section \<open>The typed accessors for BOOLEAN\<close>

text \<open>\<^verbatim>\<open>set boolean\<close> (ber.ts 25-28): a fresh one-octet value; nothing else is assigned.\<close>

definition set_boolean :: "BERElement \<Rightarrow> bool \<Rightarrow> BERElement" where
  "set_boolean this v = this\<lparr>val := [if v then 0xFF else 0x00]\<rparr>"

text \<open>\<^verbatim>\<open>get boolean\<close> (ber.ts 30-36).\<close>

definition get_boolean :: "BERElement \<Rightarrow> asn1_error + bool" where
  "get_boolean this =
     (if construction this \<noteq> primitive then Inl ASN1ConstructionError
      else if length (val this) \<noteq> 1 then Inl ASN1SizeError
      else Inr (js_index (val this) 0 \<noteq> Some 0))"

text \<open>\<^verbatim>\<open>set octetString\<close> (ber.ts 107-109): a copy of the argument.\<close>

definition set_octetString :: "BERElement \<Rightarrow> byte list \<Rightarrow> BERElement" where
  "set_octetString this v = this\<lparr>val := v\<rparr>"

section \<open>toBytes\<close>

text \<open>
  The loop of ber.ts 787-791: \<^verbatim>\<open>unshift(number & 0x7F); number >>>= 7; encodedNumber[0] |= 0x80\<close>.
  \<^verbatim>\<open>>>>\<close> reads its operand as an unsigned 32-bit integer.
\<close>

function encodeTagNumber :: "nat \<Rightarrow> byte list \<Rightarrow> byte list" where
  "encodeTagNumber number encodedNumber =
     (if number \<noteq> 0
      then encodeTagNumber ((number mod 2 ^ 32) div 2 ^ 7)
             ((word_of_nat (number mod 128) OR 0x80) # encodedNumber)
      else encodedNumber)"
  by pat_completeness auto
termination
proof (relation "measure fst")
  show "wf (measure fst)" by simp
next
  fix number :: nat and encodedNumber :: "byte list"
  assume nz: "number \<noteq> 0"
  have "number mod 2 ^ 32 div 2 ^ 7 \<le> number div 2 ^ 7"
    by (rule div_le_mono) simp
  also have "\<dots> < number" using nz by simp
  finally show "((number mod 2 ^ 32 div 2 ^ 7, (word_of_nat (number mod 128) OR 0x80) # encodedNumber),
                 (number, encodedNumber)) \<in> measure fst"
    by simp
qed

declare encodeTagNumber.simps [simp del]

text \<open>ber.ts 769-794: the identifier octet and, for tag numbers from 31, the base-128 octets.\<close>

definition tagBytes :: "BERElement \<Rightarrow> byte list" where
  "tagBytes this =
     (let first = word_of_nat (push_bit 6 (tagClassValue (tagClass this)))
                  OR word_of_nat (push_bit 5 (constructionValue (construction this)))
      in if tagNumber this < 31
         then [first OR word_of_nat (tagNumber this)]
         else
           (let encodedNumber = encodeTagNumber (tagNumber this) [];
                encodedNumber =
                  (if encodedNumber = [] then []
                   else butlast encodedNumber @ [last encodedNumber AND 0x7F])
            in (first OR 0x1F) # encodedNumber))"

text \<open>
  ber.ts 798-814, the definite preference: one octet below 127; otherwise the four octets
  of the length, from which as many octets are dropped at the front as there are zero
  octets among the first three, and the count octet before them.
\<close>

definition definiteLengthOctets :: "nat \<Rightarrow> byte list" where
  "definiteLengthOctets len =
     (if len < 127 then [word_of_nat len]
      else
        (let lengthOctets =
               map (\<lambda>i. word_of_nat (drop_bit (push_bit 3 (3 - i)) (len mod 2 ^ 32) mod 256)) [0, 1, 2, 3];
             startOfNonPadding = length (filter (\<lambda>octet. octet = 0) (take 3 lengthOctets));
             lengthOctets = drop startOfNonPadding lengthOctets
         in (0x80 OR word_of_nat (length lengthOctets)) # lengthOctets))"

definition lengthOctets :: "LengthEncodingPreference \<Rightarrow> BERElement \<Rightarrow> byte list" where
  "lengthOctets pref this =
     (case pref of
        definite \<Rightarrow> definiteLengthOctets (length (val this))
      | indefinite \<Rightarrow> [0x80])"

text \<open>
  ber.ts 768-834.  \<^verbatim>\<open>BERElement.lengthEncodingPreference\<close> is a static field; it is the
  first argument here.  Under the indefinite preference the result is two octets longer,
  and they stay zero.
\<close>

definition toBytes :: "LengthEncodingPreference \<Rightarrow> BERElement \<Rightarrow> byte list" where
  "toBytes pref this =
     tagBytes this @ lengthOctets pref this @ val this
       @ (if pref = indefinite then [0, 0] else [])"

section \<open>fromBytes\<close>

text \<open>ber.ts 654-660: the class bits of the identifier octet.\<close>

definition decodeTagClass :: "byte \<Rightarrow> ASN1TagClass" where
  "decodeTagClass b =
     (let c = b AND 0xC0 in
      if c = 0x00 then universal
      else if c = 0x40 then application
      else if c = 0x80 then context_specific
      else if c = 0xC0 then private_use
      else universal)"

text \<open>
  ber.ts 683-685: \<^verbatim>\<open>while (cursor < limit) { if (!(bytes[cursor++] & 0x80)) break; }\<close>;
  the result is the cursor after the loop.
\<close>

function tagNumberEnd :: "byte list \<Rightarrow> nat \<Rightarrow> nat \<Rightarrow> nat" where
  "tagNumberEnd bytes limit cursor =
     (if cursor < limit
      then (if js_and (js_index bytes cursor) 0x80 = 0 then cursor + 1
            else tagNumberEnd bytes limit (cursor + 1))
      else cursor)"
  by pat_completeness auto
termination
  by (relation "measure (\<lambda>(bytes, limit, cursor). limit - cursor)") auto

declare tagNumberEnd.simps [simp del]

text \<open>
  ber.ts 663-700: the tag number, short or long form, and the cursor after it.  The
  cursor never passes \<open>limit \<le> 4\<close>, so at most three groups of seven bits are folded and
  the 32-bit \<^verbatim>\<open><<=\<close> of the source cannot wrap.
\<close>

definition decodeTagNumber :: "byte list \<Rightarrow> asn1_error + (nat \<times> nat)" where
  "decodeTagNumber bytes =
     (let tagNumber = unat (js_and (js_index bytes 0) 0x1F);
          cursor = 1
      in if tagNumber \<ge> 31 then
           (if js_index bytes cursor = Some 0x80 then Inl ASN1PaddingError
            else
              (let limit = (if length bytes - 1 \<ge> 4 then 4 else length bytes - 1);
                   cursor = tagNumberEnd bytes limit cursor
               in if js_and (js_index bytes (cursor - 1)) 0x80 \<noteq> 0 then
                    (if limit = length bytes - 1 then Inl ASN1TruncationError
                     else Inl ASN1OverflowError)
                  else
                    (let tagNumber =
                           foldl (\<lambda>tagNumber i.
                                    push_bit 7 tagNumber OR unat (js_and (js_index bytes i) 0x7F))
                                 0 [1..<cursor]
                     in if tagNumber \<le> 31 then Inl ASN1Error
                        else Inr (tagNumber, cursor))))
         else Inr (tagNumber, cursor))"

text \<open>
  ber.ts 706-732: the definite long form.  \<^verbatim>\<open>lengthNumberOctets\<close> is the four-octet
  buffer, the length octets right-aligned in it; \<^verbatim>\<open>length <<= 8\<close> works on signed 32-bit
  integers, so a first octet from \<open>0x80\<close> makes the length negative, which the
  \<^verbatim>\<open>(cursor + length) < cursor\<close> test rejects.
\<close>

definition definiteLong :: "byte list \<Rightarrow> nat \<Rightarrow> nat \<Rightarrow> asn1_error + (byte list \<times> nat)" where
  "definiteLong bytes cursor numberOfLengthOctets =
     (if numberOfLengthOctets = 127 then Inl ASN1UndefinedError
      else if numberOfLengthOctets > 4 then Inl ASN1OverflowError
      else if cursor + numberOfLengthOctets \<ge> length bytes then Inl ASN1TruncationError
      else
        (let cursor = cursor + 1;
             lengthNumberOctets =
               replicate (4 - numberOfLengthOctets) 0
                 @ slice_bytes bytes cursor (cursor + numberOfLengthOctets);
             len = foldl (\<lambda>len octet. js_shl32 len 8 + uint octet) 0 lengthNumberOctets
         in if int cursor + len < int cursor then Inl ASN1OverflowError
            else
              (let cursor = cursor + numberOfLengthOctets
               in if int cursor + len > int (length bytes) then Inl ASN1TruncationError
                  else Inr (slice_bytes bytes cursor (cursor + nat len), cursor + nat len))))"

text \<open>ber.ts 761-764: the definite short form.\<close>

definition definiteShort :: "byte list \<Rightarrow> nat \<Rightarrow> asn1_error + (byte list \<times> nat)" where
  "definiteShort bytes cursor =
     (let len = unat (js_and (js_index bytes cursor) 0x7F);
          cursor = cursor + 1
      in if cursor + len > length bytes then Inl ASN1TruncationError
         else Inr (slice_bytes bytes cursor (cursor + len), cursor + len))"

text \<open>ber.ts 745-750: the test that ends the scan of an indefinite-length element.\<close>

definition isEndOfContent :: "BERElement \<Rightarrow> bool" where
  "isEndOfContent child \<longleftrightarrow>
     tagClass child = universal \<and> construction child = primitive
     \<and> tagNumber child = 0 \<and> length (val child) = 0"

text \<open>
  ber.ts 648-766.  \<open>fromBytes this bytes\<close> returns the element as the call leaves it
  and the number of octets read, or the error thrown.  \<open>scanChildren\<close> is the loop of
  ber.ts 741-751 over the children of an indefinite-length element; it returns the
  final \<^verbatim>\<open>sentinel\<close>.  Each child is a \<^verbatim>\<open>new BERElement()\<close> whose recursion counter is
  one more than the parent's.
\<close>

function fromBytes :: "BERElement \<Rightarrow> byte list \<Rightarrow> asn1_error + (BERElement \<times> nat)"
  and scanChildren :: "BERElement \<Rightarrow> byte list \<Rightarrow> nat \<Rightarrow> asn1_error + nat"
where
  "fromBytes this bytes =
     (if length bytes < 2 then Inl ASN1TruncationError
      else if recursionCount this + 1 > nestingRecursionLimit then Inl ASN1RecursionError
      else
        (case decodeTagNumber bytes of
           Inl e \<Rightarrow> Inl e
         | Inr (tagNumber', cursor) \<Rightarrow>
             (let this = this\<lparr>tagClass := decodeTagClass (bytes ! 0),
                              construction := (if bytes ! 0 AND 0x20 \<noteq> 0 then constructed else primitive),
                              tagNumber := tagNumber'\<rparr>
              in if js_and (js_index bytes cursor) 0x80 = 0x80 then
                   (let numberOfLengthOctets = unat (js_and (js_index bytes cursor) 0x7F)
                    in if numberOfLengthOctets \<noteq> 0 then
                         (case definiteLong bytes cursor numberOfLengthOctets of
                            Inl e \<Rightarrow> Inl e
                          | Inr (v, n) \<Rightarrow> Inr (this\<lparr>val := v\<rparr>, n))
                       else if construction this \<noteq> constructed then Inl ASN1ConstructionError
                       else
                         (let startOfValue = cursor + 1
                          in case scanChildren this bytes startOfValue of
                               Inl e \<Rightarrow> Inl e
                             | Inr sentinel \<Rightarrow>
                                 if sentinel = length bytes
                                    \<and> (js_index bytes (sentinel - 1) \<noteq> Some 0x00
                                         \<or> js_index bytes (sentinel - 2) \<noteq> Some 0x00)
                                 then Inl ASN1TruncationError
                                 else Inr (this\<lparr>val := slice_bytes bytes startOfValue (sentinel - 2)\<rparr>,
                                           sentinel)))
                 else
                   (case definiteShort bytes cursor of
                      Inl e \<Rightarrow> Inl e
                    | Inr (v, n) \<Rightarrow> Inr (this\<lparr>val := v\<rparr>, n)))))"
| "scanChildren this bytes sentinel =
     (if sentinel < length bytes then
        (case fromBytes ((BERElement_new universal primitive 0)\<lparr>recursionCount := recursionCount this + 1\<rparr>)
                (drop sentinel bytes) of
           Inl e \<Rightarrow> Inl e
         | Inr (child, n) \<Rightarrow>
             if isEndOfContent child then Inr (sentinel + n)
             else scanChildren this bytes (sentinel + n))
      else Inr sentinel)"
  by pat_completeness auto


text \<open>
  Every successful call reads at least two octets; the loop over the children
  therefore advances, which is what its termination rests on.
\<close>

lemma tagNumberEnd_ge: "cursor \<le> tagNumberEnd bytes limit cursor"
proof (induction bytes limit cursor rule: tagNumberEnd.induct)
  case (1 bytes limit cursor)
  show ?case
  proof (cases "cursor < limit \<and> js_and (js_index bytes cursor) 0x80 \<noteq> 0")
    case True
    then have "Suc cursor \<le> tagNumberEnd bytes limit (cursor + 1)"
      using "1.IH" by simp
    then show ?thesis
      using True by (subst tagNumberEnd.simps) simp
  next
    case False
    then show ?thesis
      by (subst tagNumberEnd.simps) auto
  qed
qed

lemma decodeTagNumber_cursor:
  "decodeTagNumber bytes = Inr (tn, cursor) \<Longrightarrow> 1 \<le> cursor"
  using tagNumberEnd_ge [of 1 bytes "if length bytes - 1 \<ge> 4 then 4 else length bytes - 1"]
  by (auto simp: decodeTagNumber_def Let_def split: if_splits)

lemma definiteLong_consumed:
  "definiteLong bytes cursor k = Inr (v, n) \<Longrightarrow> cursor < n"
  by (auto simp: definiteLong_def Let_def split: if_splits)

lemma definiteShort_consumed:
  "definiteShort bytes cursor = Inr (v, n) \<Longrightarrow> cursor < n"
  by (auto simp: definiteShort_def Let_def split: if_splits)

lemma fromBytes_scanChildren_progress:
  "fromBytes_scanChildren_dom (Inl (this, bytes)) \<Longrightarrow>
     fromBytes this bytes = Inr (e, n) \<Longrightarrow> 2 \<le> n"
  "fromBytes_scanChildren_dom (Inr (this', bytes', sentinel)) \<Longrightarrow>
     scanChildren this' bytes' sentinel = Inr r \<Longrightarrow> sentinel \<le> r"
proof (induct this bytes and this' bytes' sentinel arbitrary: e n and r
       rule: fromBytes_scanChildren.pinduct)
  case (1 this bytes)
  note dom = "1.hyps"(1)
  from "1.prems" dom obtain tn cursor
    where dt: "decodeTagNumber bytes = Inr (tn, cursor)"
      and len: "\<not> length bytes < 2"
      and rc: "\<not> nestingRecursionLimit < recursionCount this + 1"
    by (auto simp: fromBytes.psimps split: if_splits sum.splits)
  have c1: "1 \<le> cursor" using dt by (rule decodeTagNumber_cursor)
  define this' where "this' = this\<lparr>tagClass := decodeTagClass (bytes ! 0),
      construction := (if bytes ! 0 AND 0x20 \<noteq> 0 then constructed else primitive),
      tagNumber := tn\<rparr>"
  define k where "k = unat (js_and (js_index bytes cursor) 0x7F)"
  consider (short) "js_and (js_index bytes cursor) 0x80 \<noteq> 0x80"
    | (long) "js_and (js_index bytes cursor) 0x80 = 0x80" "k \<noteq> 0"
    | (indef) "js_and (js_index bytes cursor) 0x80 = 0x80" "\<not> k \<noteq> 0"
    by blast
  then show ?case
  proof cases
    case short
    with "1.prems" dom dt len rc obtain v where "definiteShort bytes cursor = Inr (v, n)"
      by (auto simp: fromBytes.psimps Let_def split: sum.splits)
    then have "cursor < n" by (rule definiteShort_consumed)
    with c1 show ?thesis by simp
  next
    case long
    with "1.prems" dom dt len rc obtain v where "definiteLong bytes cursor k = Inr (v, n)"
      by (auto simp: fromBytes.psimps Let_def k_def split: sum.splits)
    then have "cursor < n" by (rule definiteLong_consumed)
    with c1 show ?thesis by simp
  next
    case indef
    with "1.prems" dom dt len rc have con: "\<not> construction this' \<noteq> constructed"
      and sc: "scanChildren this' bytes (cursor + 1) = Inr n"
      by (auto simp: fromBytes.psimps Let_def k_def this'_def split: sum.splits if_splits)
    have "cursor + 1 \<le> n"
      by (rule "1.hyps"(2) [OF len rc dt refl this'_def indef(1) k_def indef(2) con refl sc])
    with c1 show ?thesis by simp
  qed
next
  case (2 this bytes sentinel)
  note dom = "2.hyps"(1)
  from "2.prems" dom consider (finished) "\<not> sentinel < length bytes" "r = sentinel"
    | (eoc) n where "sentinel < length bytes" "r = sentinel + n"
    | (more) child n where "sentinel < length bytes"
        "fromBytes ((BERElement_new universal primitive 0)\<lparr>recursionCount := recursionCount this + 1\<rparr>)
           (drop sentinel bytes) = Inr (child, n)"
        "\<not> isEndOfContent child" "scanChildren this bytes (sentinel + n) = Inr r"
    by (auto simp: scanChildren.psimps split: if_splits sum.splits prod.splits)
  then show ?case
  proof cases
    case finished
    then show ?thesis by simp
  next
    case eoc
    then show ?thesis by simp
  next
    case more
    have "sentinel + n \<le> r"
      by (rule "2.hyps"(3) [OF more(1) more(2) refl more(3) more(4)])
    then show ?thesis by simp
  qed
qed

termination fromBytes
  by (relation "measure (\<lambda>x. case x of Inl (this, bytes) \<Rightarrow> 2 * length bytes + 1
                                | Inr (this, bytes, sentinel) \<Rightarrow> 2 * (length bytes - sentinel) + 2)")
     (auto dest: fromBytes_scanChildren_progress(1))

declare fromBytes.simps [simp del] scanChildren.simps [simp del]

section \<open>Constructed strings\<close>

text \<open>The same progress fact, for the total functions.\<close>

lemma fromBytes_scanChildren_consumed:
  "fromBytes this bytes = Inr (e, n) \<Longrightarrow> 2 \<le> n"
  "scanChildren this' bytes' sentinel = Inr r \<Longrightarrow> sentinel \<le> r"
proof (induct this bytes and this' bytes' sentinel arbitrary: e n and r
       rule: fromBytes_scanChildren.induct)
  case (1 this bytes)
  from "1.prems" obtain tn cursor
    where dt: "decodeTagNumber bytes = Inr (tn, cursor)"
      and len: "\<not> length bytes < 2"
      and rc: "\<not> nestingRecursionLimit < recursionCount this + 1"
    by (auto simp: fromBytes.simps split: if_splits sum.splits)
  have c1: "1 \<le> cursor" using dt by (rule decodeTagNumber_cursor)
  define this' where "this' = this\<lparr>tagClass := decodeTagClass (bytes ! 0),
      construction := (if bytes ! 0 AND 0x20 \<noteq> 0 then constructed else primitive),
      tagNumber := tn\<rparr>"
  define k where "k = unat (js_and (js_index bytes cursor) 0x7F)"
  consider (short) "js_and (js_index bytes cursor) 0x80 \<noteq> 0x80"
    | (long) "js_and (js_index bytes cursor) 0x80 = 0x80" "k \<noteq> 0"
    | (indef) "js_and (js_index bytes cursor) 0x80 = 0x80" "\<not> k \<noteq> 0"
    by blast
  then show ?case
  proof cases
    case short
    with "1.prems" dt len rc obtain v where "definiteShort bytes cursor = Inr (v, n)"
      by (auto simp: fromBytes.simps Let_def split: sum.splits)
    then have "cursor < n" by (rule definiteShort_consumed)
    with c1 show ?thesis by simp
  next
    case long
    with "1.prems" dt len rc obtain v where "definiteLong bytes cursor k = Inr (v, n)"
      by (auto simp: fromBytes.simps Let_def k_def split: sum.splits)
    then have "cursor < n" by (rule definiteLong_consumed)
    with c1 show ?thesis by simp
  next
    case indef
    with "1.prems" dt len rc have con: "\<not> construction this' \<noteq> constructed"
      and sc: "scanChildren this' bytes (cursor + 1) = Inr n"
      by (auto simp: fromBytes.simps Let_def k_def this'_def split: sum.splits if_splits)
    have "cursor + 1 \<le> n"
      by (rule "1.hyps" [OF len rc dt refl this'_def indef(1) k_def indef(2) con refl sc])
    with c1 show ?thesis by simp
  qed
next
  case (2 this bytes sentinel)
  from "2.prems" [unfolded scanChildren.simps [of this bytes sentinel]]
  consider (finished) "\<not> sentinel < length bytes" "r = sentinel"
    | (eoc) n where "sentinel < length bytes" "r = sentinel + n"
    | (more) child n where "sentinel < length bytes"
        "fromBytes ((BERElement_new universal primitive 0)\<lparr>recursionCount := recursionCount this + 1\<rparr>)
           (drop sentinel bytes) = Inr (child, n)"
        "\<not> isEndOfContent child" "scanChildren this bytes (sentinel + n) = Inr r"
    by (auto split: if_splits sum.splits prod.splits)
  then show ?case
  proof cases
    case finished
    then show ?thesis by simp
  next
    case eoc
    then show ?thesis by simp
  next
    case more
    have "sentinel + n \<le> r"
      by (rule "2.hyps"(2) [OF more(1) more(2) refl more(3) more(4)])
    then show ?thesis by simp
  qed
qed

text \<open>
  ber.ts 285-298, the getter \<^verbatim>\<open>sequence\<close>: the loop
  \<^verbatim>\<open>while (i < value.length) { next = new BERElement(); i += next.fromBytes(value.slice(i)); push(next) }\<close>.
  Each child starts with recursion counter 0.
\<close>

function decodeElements :: "byte list \<Rightarrow> nat \<Rightarrow> BERElement list \<Rightarrow> asn1_error + BERElement list" where
  "decodeElements v i encodedElements =
     (if i < length v then
        (case fromBytes (BERElement_new universal primitive 0) (drop i v) of
           Inl e \<Rightarrow> Inl e
         | Inr (next, n) \<Rightarrow> decodeElements v (i + n) (encodedElements @ [next]))
      else Inr encodedElements)"
  by pat_completeness auto
termination
  by (relation "measure (\<lambda>(v, i, encodedElements). length v - i)")
     (auto dest: fromBytes_scanChildren_consumed(1))

declare decodeElements.simps [simp del]

definition get_sequence :: "BERElement \<Rightarrow> asn1_error + BERElement list" where
  "get_sequence this =
     (if construction this \<noteq> constructed then Inl ASN1ConstructionError
      else if length (val this) = 0 then Inr []
      else decodeElements (val this) 0 [])"

text \<open>
  \<^verbatim>\<open>Array.prototype.forEach\<close> with a callback that may throw: the callbacks run in order
  and the first error ends the loop.
\<close>

fun forEach :: "('a \<Rightarrow> 'e + 'b) \<Rightarrow> 'a list \<Rightarrow> 'e + 'b list" where
  "forEach f [] = Inr []"
| "forEach f (x # xs) =
     (case f x of
        Inl e \<Rightarrow> Inl e
      | Inr y \<Rightarrow> (case forEach f xs of Inl e \<Rightarrow> Inl e | Inr ys \<Rightarrow> Inr (y # ys)))"

lemma forEach_cong [fundef_cong]:
  "xs = ys \<Longrightarrow> (\<And>x. x \<in> set ys \<Longrightarrow> f x = g x) \<Longrightarrow> forEach f xs = forEach g ys"
  by (induction ys arbitrary: xs) (auto split: sum.splits)

text \<open>
  ber.ts 836-865.  The argument \<^verbatim>\<open>dataType\<close> only words the error messages and is left
  out.  \<^verbatim>\<open>appendy\<close> collects one octet array per child; the result is their concatenation.
\<close>

function deconstruct :: "BERElement \<Rightarrow> asn1_error + byte list" where
  "deconstruct this =
     (if construction this = primitive then Inr (val this)
      else if recursionCount this + 1 > nestingRecursionLimit then Inl ASN1RecursionError
      else
        (case get_sequence this of
           Inl e \<Rightarrow> Inl e
         | Inr substrings \<Rightarrow>
             (case forEach
                     (\<lambda>substring.
                        if tagClass substring \<noteq> tagClass this then Inl ASN1ConstructionError
                        else if tagNumber substring \<noteq> tagNumber this then Inl ASN1ConstructionError
                        else deconstruct (substring\<lparr>recursionCount := recursionCount this + 1\<rparr>))
                     substrings of
                Inl e \<Rightarrow> Inl e
              | Inr appendy \<Rightarrow> Inr (concat appendy))))"
  by pat_completeness auto
termination
  by (relation "measure (\<lambda>this. nestingRecursionLimit + 1 - recursionCount this)") auto

declare deconstruct.simps [simp del]

text \<open>ber.ts 111-113.\<close>

definition get_octetString :: "BERElement \<Rightarrow> asn1_error + byte list" where
  "get_octetString this = deconstruct this"

text \<open>ber.ts 65-74: the eight bits of one octet, most significant first.\<close>

definition bitsOfOctet :: "byte \<Rightarrow> bool list" where
  "bitsOfOctet b =
     [b AND 0x80 \<noteq> 0, b AND 0x40 \<noteq> 0, b AND 0x20 \<noteq> 0, b AND 0x10 \<noteq> 0,
      b AND 0x08 \<noteq> 0, b AND 0x04 \<noteq> 0, b AND 0x02 \<noteq> 0, b AND 0x01 \<noteq> 0]"

text \<open>
  ber.ts 51-105, the getter \<^verbatim>\<open>bitString\<close>.  In the primitive branch \<^verbatim>\<open>ret.length -= value[0]\<close>
  never goes below zero: the count is at most 7, and it is 0 when there are no bit octets.
  In the constructed branch the alignment test runs over all children but the last
  (\<^verbatim>\<open>slice(0, length - 1)\<close>) before any tag is compared.
\<close>

function get_bitString :: "BERElement \<Rightarrow> asn1_error + bool list" where
  "get_bitString this =
     (if construction this = primitive then
        (if length (val this) = 0 then Inl ASN1Error
         else if length (val this) = 1 \<and> js_index (val this) 0 \<noteq> Some 0 then Inl ASN1Error
         else if unat (val this ! 0) > 7 then Inl ASN1Error
         else
           (let ret = concat (map bitsOfOctet (drop 1 (val this)))
            in Inr (take (length ret - unat (val this ! 0)) ret)))
      else if recursionCount this + 1 > nestingRecursionLimit then Inl ASN1RecursionError
      else
        (case get_sequence this of
           Inl e \<Rightarrow> Inl e
         | Inr substrings \<Rightarrow>
             (case forEach
                     (\<lambda>substring.
                        if construction substring = primitive
                           \<and> length (val substring) > 0
                           \<and> js_index (val substring) 0 \<noteq> Some 0x00
                        then Inl ASN1Error else Inr ())
                     (butlast substrings) of
                Inl e \<Rightarrow> Inl e
              | Inr _ \<Rightarrow>
                  (case forEach
                          (\<lambda>substring.
                             if tagClass substring \<noteq> tagClass this then Inl ASN1ConstructionError
                             else if tagNumber substring \<noteq> tagNumber this then Inl ASN1ConstructionError
                             else get_bitString (substring\<lparr>recursionCount := recursionCount this + 1\<rparr>))
                          substrings of
                     Inl e \<Rightarrow> Inl e
                   | Inr appendy \<Rightarrow> Inr (concat appendy)))))"
  by pat_completeness auto
termination
  by (relation "measure (\<lambda>this. nestingRecursionLimit + 1 - recursionCount this)") auto

declare get_bitString.simps [simp del]

section \<open>The fragmenting setter of CERElement\<close>

text \<open>
  \<^verbatim>\<open>CERElement\<close> (constructed.js 134 onwards) has the fields of \<^verbatim>\<open>BERElement\<close>.
\<close>

type_synonym CERElement = BERElement

text \<open>
  constructed.js 701-768, \<^verbatim>\<open>CERElement.toBytes\<close>: the identifier octets are built as in
  \<^verbatim>\<open>BERElement.toBytes\<close>; the form of the length follows the construction, definite for a
  primitive element (the same octets as \<^verbatim>\<open>BERElement.toBytes\<close>), indefinite with two
  closing zero octets for a constructed one.
\<close>

definition cer_toBytes :: "CERElement \<Rightarrow> byte list" where
  "cer_toBytes this =
     tagBytes this
       @ (case construction this of
            primitive \<Rightarrow> definiteLengthOctets (length (val this))
          | constructed \<Rightarrow> [0x80])
       @ val this
       @ (if construction this = constructed then [0, 0] else [])"

text \<open>
  Modelled from the spec: \<^verbatim>\<open>splitOctetsCanonically\<close> is imported (constructed.js 120) but
  is not among the sources.  The spec has the value split into sub-elements of 1000
  octets, the last one holding the remainder, which may be shorter.
\<close>

function splitOctetsCanonically :: "byte list \<Rightarrow> byte list list" where
  "splitOctetsCanonically v =
     (if v = [] then [] else take 1000 v # splitOctetsCanonically (drop 1000 v))"
  by pat_completeness auto
termination
  by (relation "measure length") auto

declare splitOctetsCanonically.simps [simp del]

text \<open>
  Modelled from the spec: \<^verbatim>\<open>encodeSequence\<close> is imported (constructed.js 108) but is not
  among the sources.  The spec has the value of a constructed element be the encodings
  of its children, back to back.
\<close>

definition encodeSequence :: "CERElement list \<Rightarrow> byte list" where
  "encodeSequence elements = concat (map cer_toBytes elements)"

lemma splitOctetsCanonically_fragment_length:
  "fragment \<in> set (splitOctetsCanonically v) \<Longrightarrow> length fragment \<le> 1000"
proof (induction v rule: splitOctetsCanonically.induct)
  case (1 v)
  show ?case
  proof (cases "v = []")
    case True
    with "1.prems" show ?thesis by (simp add: splitOctetsCanonically.simps)
  next
    case False
    with "1.prems" have "fragment = take 1000 v \<or> fragment \<in> set (splitOctetsCanonically (drop 1000 v))"
      by (subst (asm) splitOctetsCanonically.simps) simp
    then show ?thesis
      using "1.IH" [OF False] by auto
  qed
qed

text \<open>
  constructed.js 140-156, the setter \<^verbatim>\<open>unfragmentedValue\<close>, and 561-572, the constructor
  it calls for each fragment: \<^verbatim>\<open>super()\<close>, then \<^verbatim>\<open>this.encode(value)\<close>, which for a
  \<^verbatim>\<open>Uint8Array\<close> sets the tag number to 4 and assigns \<^verbatim>\<open>this.octetString\<close> (456-458),
  then the three fields from the arguments.
\<close>

function cer_set_unfragmentedValue :: "CERElement \<Rightarrow> byte list \<Rightarrow> CERElement"
  and CERElement_new :: "ASN1TagClass \<Rightarrow> ASN1Construction \<Rightarrow> nat \<Rightarrow> byte list \<Rightarrow> CERElement"
where
  "cer_set_unfragmentedValue this v =
     (if length v \<le> 1000 then this\<lparr>construction := primitive, val := v\<rparr>
      else this\<lparr>construction := constructed,
                val := encodeSequence
                         (map (\<lambda>fragment.
                                 CERElement_new (tagClass this) primitive (tagNumber this) fragment)
                              (splitOctetsCanonically v))\<rparr>)"
| "CERElement_new tc c tn v =
     (let this = BERElement_new universal primitive 0;
          this = this\<lparr>tagNumber := 4\<rparr>;
          this = cer_set_unfragmentedValue this v
      in this\<lparr>tagClass := tc, construction := c, tagNumber := tn\<rparr>)"
  by pat_completeness auto
termination
  by (relation "measure (\<lambda>x. case x of Inl (this, v) \<Rightarrow> 2 * length v + 1
                                | Inr (tc, c, tn, v) \<Rightarrow> 2 * length v + 2)")
     (auto dest: splitOctetsCanonically_fragment_length)

declare cer_set_unfragmentedValue.simps [simp del] CERElement_new.simps [simp del]

text \<open>
  constructed.js 206-208, the setter \<^verbatim>\<open>octetString\<close>:
  \<^verbatim>\<open>this.unfragmentedValue = new Uint8Array(value)\<close>.
\<close>

definition cer_set_octetString :: "CERElement \<Rightarrow> byte list \<Rightarrow> CERElement" where
  "cer_set_octetString this v = cer_set_unfragmentedValue this v"

section \<open>Notions of the specification\<close>

text \<open>
  The identifier octet without its number bits (ber.ts 770-771): class in bits 7-6,
  construction in bit 5.
\<close>

definition identifierBits :: "BERElement \<Rightarrow> byte" where
  "identifierBits this =
     word_of_nat (push_bit 6 (tagClassValue (tagClass this)))
       OR word_of_nat (push_bit 5 (constructionValue (construction this)))"

text \<open>
  The long form of a tag number in the spec's words: continuation octets are base-128
  digits, big-endian, the high bit set on every octet but the last;
  \<open>base128Value\<close> is the number they denote.  The encoding is minimal when the first
  octet is not \<open>0x80\<close>.
\<close>

definition base128Value :: "byte list \<Rightarrow> nat" where
  "base128Value cs = foldl (\<lambda>a b. a * 128 + unat (b AND 0x7F)) 0 cs"

definition continuationOctets :: "byte list \<Rightarrow> bool" where
  "continuationOctets cs \<longleftrightarrow>
     cs \<noteq> [] \<and> list_all (\<lambda>b. b AND 0x80 \<noteq> 0) (butlast cs) \<and> last cs AND 0x80 = 0"

section \<open>Example elements\<close>

text \<open>
  The constructed OCTET STRING of the test suite (\<open>24 11 ...\<close>, as \<^verbatim>\<open>fromBytes\<close> leaves it);
  an OCTET STRING whose second child is a NULL (\<open>24 06 04 02 01 02 05 00\<close>); and one whose
  first child is a constructed OCTET STRING with truncated contents and whose second
  child is a NULL (\<open>24 06 24 02 04 05 05 00\<close>).
\<close>

definition octetStringExample :: BERElement where
  "octetStringExample =
     \<lparr>recursionCount = 0, tagClass = universal, construction = constructed, tagNumber = 4,
      val = [0x04, 0x04, 0x01, 0x02, 0x03, 0x04, 0x24, 0x05, 0x04, 0x03, 0x05, 0x06, 0x07,
             0x04, 0x02, 0x08, 0x09]\<rparr>"

definition mismatchExample :: BERElement where
  "mismatchExample =
     \<lparr>recursionCount = 0, tagClass = universal, construction = constructed, tagNumber = 4,
      val = [0x04, 0x02, 0x01, 0x02, 0x05, 0x00]\<rparr>"

definition truncatedChildExample :: BERElement where
  "truncatedChildExample =
     \<lparr>recursionCount = 0, tagClass = universal, construction = constructed, tagNumber = 4,
      val = [0x24, 0x02, 0x04, 0x05, 0x05, 0x00]\<rparr>"

text \<open>
  The constructed BIT STRING of the test suite (\<open>23 0E ...\<close>); a BIT STRING whose first
  child is primitive with five unused bits (\<open>23 08 03 02 05 F0 03 02 00 0F\<close>); and one
  whose first child is constructed and holds that same primitive child
  (\<open>23 0A 23 04 03 02 05 F0 03 02 00 0F\<close>).
\<close>

definition bitStringExample :: BERElement where
  "bitStringExample =
     \<lparr>recursionCount = 0, tagClass = universal, construction = constructed, tagNumber = 3,
      val = [0x03, 0x02, 0x00, 0x0F, 0x23, 0x04, 0x03, 0x02, 0x00, 0x0F, 0x03, 0x02, 0x05, 0xF0]\<rparr>"

definition misalignedExample :: BERElement where
  "misalignedExample =
     \<lparr>recursionCount = 0, tagClass = universal, construction = constructed, tagNumber = 3,
      val = [0x03, 0x02, 0x05, 0xF0, 0x03, 0x02, 0x00, 0x0F]\<rparr>"

definition nestedMisalignedExample :: BERElement where
  "nestedMisalignedExample =
     \<lparr>recursionCount = 0, tagClass = universal, construction = constructed, tagNumber = 3,
      val = [0x23, 0x04, 0x03, 0x02, 0x05, 0xF0, 0x03, 0x02, 0x00, 0x0F]\<rparr>"







section \<open>Auxiliary facts\<close>

lemma forEach_Inr_iff: "forEach f xs = Inr ys \<longleftrightarrow> map f xs = map Inr ys"
proof (induction xs arbitrary: ys)
  case Nil
  then show ?case by auto
next
  case (Cons x xs)
  show ?case
  proof (cases "f x")
    case (Inl e)
    then show ?thesis by (cases ys) auto
  next
    case (Inr y)
    then show ?thesis
      by (cases ys) (auto simp: Cons.IH [symmetric] split: sum.splits)
  qed
qed

lemma forEach_first_error:
  assumes "\<forall>p \<in> set pre. \<exists>y. f p = Inr y" and "f s = Inl e"
  shows "forEach f (pre @ s # post) = Inl e"
  using assms by (induction pre) (auto split: sum.splits)

lemma forEach_fails:
  assumes "x \<in> set xs" and "f x = Inl e"
  shows "\<exists>e'. forEach f xs = Inl e'"
  using assms by (induction xs) (auto split: sum.splits)

lemma deconstruct_constructed:
  assumes "construction this = constructed"
      and "recursionCount this + 1 \<le> nestingRecursionLimit"
      and "get_sequence this = Inr substrings"
  shows "deconstruct this =
           (case forEach
                   (\<lambda>substring.
                      if tagClass substring \<noteq> tagClass this then Inl ASN1ConstructionError
                      else if tagNumber substring \<noteq> tagNumber this then Inl ASN1ConstructionError
                      else deconstruct (substring\<lparr>recursionCount := recursionCount this + 1\<rparr>))
                   substrings of
              Inl e \<Rightarrow> Inl e
            | Inr appendy \<Rightarrow> Inr (concat appendy))"
  using assms by (subst deconstruct.simps) simp

lemma forEach_error_source:
  "forEach f xs = Inl e \<Longrightarrow> \<exists>x \<in> set xs. f x = Inl e"
  by (induction xs) (auto split: sum.splits)

lemma forEach_succeeds:
  "(\<forall>x \<in> set xs. \<exists>y. f x = Inr y) \<Longrightarrow> \<exists>ys. forEach f xs = Inr ys"
  by (induction xs) (auto split: sum.splits)

lemma get_bitString_constructed:
  assumes "construction this = constructed"
      and "recursionCount this + 1 \<le> nestingRecursionLimit"
      and "get_sequence this = Inr substrings"
  shows "get_bitString this =
           (case forEach
                   (\<lambda>substring.
                      if construction substring = primitive
                         \<and> length (val substring) > 0
                         \<and> js_index (val substring) 0 \<noteq> Some 0x00
                      then Inl ASN1Error else Inr ())
                   (butlast substrings) of
              Inl e \<Rightarrow> Inl e
            | Inr _ \<Rightarrow>
                (case forEach
                        (\<lambda>substring.
                           if tagClass substring \<noteq> tagClass this then Inl ASN1ConstructionError
                           else if tagNumber substring \<noteq> tagNumber this then Inl ASN1ConstructionError
                           else get_bitString (substring\<lparr>recursionCount := recursionCount this + 1\<rparr>))
                        substrings of
                   Inl e \<Rightarrow> Inl e
                 | Inr appendy \<Rightarrow> Inr (concat appendy)))"
  using assms by (subst get_bitString.simps) simp

subsection \<open>Octets as numbers\<close>

lemma and7F: "unat ((x::8 word) AND 0x7F) = unat x mod 128"
proof -
  have "unat (x AND 0x7F) = unat x AND unat (0x7F :: 8 word)" by (rule unsigned_and_eq)
  also have "unat (0x7F :: 8 word) = mask 7" by (simp add: mask_eq_exp_minus_1)
  also have "unat x AND mask 7 = unat x mod 2 ^ 7" by (simp add: take_bit_eq_mask [symmetric] take_bit_eq_mod)
  finally show ?thesis by simp
qed

lemma and1F: "unat ((x::8 word) AND 0x1F) = unat x mod 32"
proof -
  have "unat (x AND 0x1F) = unat x AND unat (0x1F :: 8 word)" by (rule unsigned_and_eq)
  also have "unat (0x1F :: 8 word) = mask 5" by (simp add: mask_eq_exp_minus_1)
  also have "unat x AND mask 5 = unat x mod 2 ^ 5" by (simp add: take_bit_eq_mask [symmetric] take_bit_eq_mod)
  finally show ?thesis by simp
qed

lemma bit7: "bit (b::8 word) 7 \<longleftrightarrow> 128 \<le> unat b"
proof -
  have lt: "unat b < 256" using unsigned_less [of b] by simp
  have "bit b 7 \<longleftrightarrow> bit (unat b) 7" by (simp add: bit_unsigned_iff)
  also have "\<dots> \<longleftrightarrow> odd (unat b div 2 ^ 7)" by (simp add: bit_iff_odd)
  also have "\<dots> \<longleftrightarrow> 128 \<le> unat b"
  proof (cases "128 \<le> unat b")
    case True
    with lt have "unat b div 128 = 1" by simp
    with True show ?thesis by simp
  next
    case False
    then have "unat b div 128 = 0" by simp
    with False show ?thesis by simp
  qed
  finally show ?thesis .
qed

lemma and80_zero: "(b::8 word) AND 0x80 = 0 \<longleftrightarrow> unat b < 128"
proof -
  have "(0x80 :: 8 word) = 2 ^ 7" by simp
  then have "b AND 0x80 = 0 \<longleftrightarrow> \<not> bit b 7"
    by (simp only: and_exp_eq_0_iff_not_bit)
  then show ?thesis by (simp add: bit7 not_le)
qed

lemma and80_cases: "(b::8 word) AND 0x80 = 0 \<or> b AND 0x80 = 0x80"
proof (cases "bit b 7")
  case True
  have "b AND 2 ^ 7 = 2 ^ 7"
    by (rule bit_eqI) (use True in \<open>auto simp only: bit_and_iff bit_exp_iff\<close>)
  then show ?thesis by simp
next
  case False
  then have "b AND 2 ^ 7 = 0" by (rule and_exp_eq_0_iff_not_bit [THEN iffD2])
  then show ?thesis by simp
qed

lemma and80_set: "(b::8 word) AND 0x80 = 0x80 \<longleftrightarrow> 128 \<le> unat b"
  using and80_cases [of b] and80_zero [of b] by auto

lemma or80: "d < 128 \<Longrightarrow> unat (word_of_nat d OR 0x80 :: 8 word) = d + 128"
proof -
  assume d: "d < 128"
  have "unat (word_of_nat d OR 0x80 :: 8 word) = unat (word_of_nat d :: 8 word) OR unat (0x80 :: 8 word)"
    by (rule unsigned_or_eq)
  also have "unat (word_of_nat d :: 8 word) = d" using d by (simp add: unat_of_nat)
  also have "unat (0x80 :: 8 word) = 2 ^ 7" by simp
  also have "d OR 2 ^ 7 = d + 2 ^ 7"
  proof -
    have "\<not> bit d 7" using d by (simp add: bit_iff_odd)
    then have "d AND 2 ^ 7 = 0" by (rule and_exp_eq_0_iff_not_bit [THEN iffD2])
    then show ?thesis by (rule disjunctive_add_eq_or [symmetric])
  qed
  finally show ?thesis by simp
qed


lemma byte_of_nat_unat: "d < 256 \<Longrightarrow> unat (word_of_nat d :: byte) = d"
  by (simp add: unat_of_nat)

lemma byte_eq_iff: "(a :: byte) = b \<longleftrightarrow> unat a = unat b"
  by (simp add: word_unat_eq_iff)

lemma low7_small: "d < 128 \<Longrightarrow> (word_of_nat d :: byte) AND 0x80 = 0"
  by (simp add: and80_zero byte_of_nat_unat)

lemma low7_value: "d < 128 \<Longrightarrow> unat ((word_of_nat d :: byte) AND 0x7F) = d"
  by (simp add: and7F byte_of_nat_unat)

lemma cont_flag: "d < 128 \<Longrightarrow> (word_of_nat d OR 0x80 :: byte) AND 0x80 = 0x80"
  by (simp add: and80_set or80)

lemma cont_value: "d < 128 \<Longrightarrow> unat ((word_of_nat d OR 0x80 :: byte) AND 0x7F) = d"
  by (simp add: and7F or80)

lemma cont_strip: "d < 128 \<Longrightarrow> (word_of_nat d OR 0x80 :: byte) AND 0x7F = word_of_nat d"
  by (simp add: byte_eq_iff and7F or80 byte_of_nat_unat)

lemma cont_padding: "d < 128 \<Longrightarrow> (word_of_nat d OR 0x80 :: byte) = 0x80 \<longleftrightarrow> d = 0"
  by (simp add: byte_eq_iff or80)

lemma high_bit_only: "(b::byte) AND 0x80 = 0x80 \<Longrightarrow> b AND 0x7F = 0 \<Longrightarrow> b = 0x80"
proof -
  assume a: "b AND 0x80 = 0x80" and z: "b AND 0x7F = 0"
  from a have "128 \<le> unat b" by (simp add: and80_set)
  moreover from z have "unat b mod 128 = 0" using and7F [of b] by simp
  moreover have "unat b < 256" using unsigned_less [of b] by simp
  ultimately have "unat b = 128" by presburger
  then show ?thesis by (simp add: byte_eq_iff)
qed

lemma sint32_of_int: "- (2 ^ 31) \<le> y \<Longrightarrow> y < 2 ^ 31 \<Longrightarrow> sint (word_of_int y :: 32 word) = y"
  by (simp add: sint_sbintrunc' signed_take_bit_int_eq_self)

lemma js_shl32_small: "0 \<le> x \<Longrightarrow> x < 2 ^ 23 \<Longrightarrow> js_shl32 x 8 = 256 * x"
proof -
  assume x: "0 \<le> x" "x < 2 ^ 23"
  have "push_bit 8 (word_of_int x :: 32 word) = word_of_int (256 * x)"
    by (simp add: push_bit_eq_mult)
  then have "js_shl32 x 8 = sint (word_of_int (256 * x) :: 32 word)"
    by (simp only: js_shl32_def)
  also have "\<dots> = 256 * x"
    by (rule sint32_of_int) (use x in simp_all)
  finally show ?thesis .
qed

lemma tagNumberEnd_stop:
  "cursor < limit \<Longrightarrow> js_and (js_index bytes cursor) 0x80 = 0
     \<Longrightarrow> tagNumberEnd bytes limit cursor = cursor + 1"
  by (subst tagNumberEnd.simps) simp

lemma tagNumberEnd_step:
  "cursor < limit \<Longrightarrow> js_and (js_index bytes cursor) 0x80 \<noteq> 0
     \<Longrightarrow> tagNumberEnd bytes limit cursor = tagNumberEnd bytes limit (cursor + 1)"
  by (subst tagNumberEnd.simps) simp

lemma tagNumberEnd_limit:
  "\<not> cursor < limit \<Longrightarrow> tagNumberEnd bytes limit cursor = cursor"
  by (subst tagNumberEnd.simps) simp

subsection \<open>Length octets\<close>

lemma definiteLengthOctets_short:
  "L < 127 \<Longrightarrow> definiteLengthOctets L = [word_of_nat L]"
  by (simp add: definiteLengthOctets_def)

lemma definiteLengthOctets_one:
  assumes "127 \<le> L" "L < 256"
  shows "definiteLengthOctets L = [0x81, word_of_nat L]"
proof -
  have z: "L mod 4294967296 = L" "L div 16777216 = 0" "L div 65536 = 0" "L div 256 = 0"
    using assms by simp_all
  show ?thesis
    using assms by (simp add: definiteLengthOctets_def drop_bit_eq_div z)
qed

lemma definiteLengthOctets_two:
  assumes "256 \<le> L" "L < 65536"
  shows "definiteLengthOctets L = [0x82, word_of_nat (L div 256), word_of_nat (L mod 256)]"
proof -
  have z: "L mod 4294967296 = L" "L div 16777216 = 0" "L div 65536 = 0"
    using assms by simp_all
  have q: "L div 256 < 256" "L div 256 \<noteq> 0" using assms by simp_all
  have nz: "(word_of_nat (L div 256) :: byte) \<noteq> 0"
    using q by (simp add: byte_eq_iff byte_of_nat_unat)
  have m: "(word_of_nat (L div 256 mod 256) :: byte) = word_of_nat (L div 256)"
    using q by simp
  have m3: "(word_of_nat (L mod 256) :: byte) = word_of_nat L"
    by (simp add: byte_eq_iff unat_of_nat)
  show ?thesis
    using assms nz by (simp add: definiteLengthOctets_def drop_bit_eq_div z m m3)
qed

lemma js_index_at: "js_index (pre @ x # xs) (length pre) = Some x"
  by (simp add: js_index_def)

lemma slice_at: "slice_bytes (pre @ v @ rest) (length pre) (length pre + length v) = v"
  by (simp add: slice_bytes_def)

lemma definiteShort_at:
  assumes "L < 128" "length v = L"
  shows "definiteShort (pre @ word_of_nat L # v @ rest) (length pre) = Inr (v, length pre + 1 + L)"
proof -
  have len: "unat (js_and (js_index (pre @ word_of_nat L # v @ rest) (length pre)) 0x7F) = L"
    using assms by (simp add: js_index_at js_and_def low7_value)
  have sl: "slice_bytes (pre @ word_of_nat L # v @ rest) (Suc (length pre)) (Suc (length pre + L)) = v"
    using slice_at [of "pre @ [word_of_nat L]" v rest] assms by simp
  show ?thesis
    unfolding definiteShort_def Let_def len
    using assms sl by simp
qed

lemma length_fold_one:
  "foldl (\<lambda>len octet. js_shl32 len 8 + uint octet) 0 [0, 0, 0, d :: byte] = uint d"
  by (simp add: js_shl32_small)

lemma length_fold_two:
  "foldl (\<lambda>len octet. js_shl32 len 8 + uint octet) 0 [0, 0, c, d :: byte] = 256 * uint c + uint d"
proof -
  have "uint c < 2 ^ 23" using uint_lt2p [of c] by simp
  then show ?thesis by (simp add: js_shl32_small)
qed

lemma definiteLong_one_at:
  assumes "L < 256" "length v = L"
  shows "definiteLong (pre @ h # word_of_nat L # v @ rest) (length pre) 1
           = Inr (v, length pre + 2 + L)"
proof -
  let ?bytes = "pre @ h # word_of_nat L # v @ rest"
  have lno: "replicate (4 - 1) 0 @ slice_bytes ?bytes (length pre + 1) (length pre + 1 + 1)
               = [0, 0, 0, word_of_nat L]"
    by (simp add: slice_bytes_def numeral_3_eq_3)
  have ln: "uint (word_of_nat L :: byte) = int L"
    using assms by (simp add: uint_nat byte_of_nat_unat)
  have sl: "slice_bytes ?bytes (length pre + 1 + 1) (length pre + 1 + 1 + L) = v"
    using slice_at [of "pre @ [h, word_of_nat L]" v rest] assms by simp
  show ?thesis
    unfolding definiteLong_def Let_def lno length_fold_one ln
    using assms sl by simp
qed

lemma definiteLong_two_at:
  assumes "L < 65536" "length v = L"
  shows "definiteLong (pre @ h # word_of_nat (L div 256) # word_of_nat (L mod 256) # v @ rest)
             (length pre) 2
           = Inr (v, length pre + 3 + L)"
proof -
  let ?bytes = "pre @ h # word_of_nat (L div 256) # word_of_nat (L mod 256) # v @ rest"
  have lno: "replicate (4 - 2) 0 @ slice_bytes ?bytes (length pre + 1) (length pre + 1 + 2)
               = [0, 0, word_of_nat (L div 256), word_of_nat (L mod 256)]"
    by (simp add: slice_bytes_def numeral_2_eq_2)
  have "256 * (L div 256) + L mod 256 = L" by simp
  then have "256 * int (L div 256) + int (L mod 256) = int L" by linarith
  then have ln: "256 * uint (word_of_nat (L div 256) :: byte) + uint (word_of_nat (L mod 256) :: byte) = int L"
    using assms by (simp add: uint_nat byte_of_nat_unat)
  have sl: "slice_bytes ?bytes (length pre + 1 + 2) (length pre + 1 + 2 + L) = v"
    using slice_at [of "pre @ [h, word_of_nat (L div 256), word_of_nat (L mod 256)]" v rest] assms
    by simp
  show ?thesis
    unfolding definiteLong_def Let_def lno length_fold_two ln
    using assms sl by simp
qed

lemma byte_of_nat_nonzero: "d < 256 \<Longrightarrow> d \<noteq> 0 \<Longrightarrow> (word_of_nat d :: byte) \<noteq> 0"
  by (simp add: byte_eq_iff byte_of_nat_unat)

lemma definiteLengthOctets_three:
  assumes "65536 \<le> L" "L < 16777216" "L div 256 mod 256 \<noteq> 0"
  shows "definiteLengthOctets L
           = [0x83, word_of_nat (L div 65536), word_of_nat (L div 256 mod 256),
              word_of_nat (L mod 256)]"
proof -
  have z: "L mod 4294967296 = L" "L div 16777216 = 0"
    using assms by simp_all
  have q: "L div 65536 < 256" "L div 65536 \<noteq> 0" using assms by simp_all
  have nz1: "(word_of_nat (L div 65536) :: byte) \<noteq> 0"
    using q by (rule byte_of_nat_nonzero)
  have nz2: "(word_of_nat (L div 256 mod 256) :: byte) \<noteq> 0"
    using assms(3) by (intro byte_of_nat_nonzero) simp_all
  have m1: "(word_of_nat (L div 65536 mod 256) :: byte) = word_of_nat (L div 65536)"
    using q by simp
  have big: "\<not> L < 127" using assms by simp
  show ?thesis
    using nz1 nz2 by (simp add: definiteLengthOctets_def drop_bit_eq_div z m1 big)
qed

lemma definiteLengthOctets_four:
  assumes "16777216 \<le> L" "L < 4294967296" "L div 65536 mod 256 \<noteq> 0" "L div 256 mod 256 \<noteq> 0"
  shows "definiteLengthOctets L
           = [0x84, word_of_nat (L div 16777216), word_of_nat (L div 65536 mod 256),
              word_of_nat (L div 256 mod 256), word_of_nat (L mod 256)]"
proof -
  have z: "L mod 4294967296 = L"
    using assms by simp
  have q: "L div 16777216 < 256" "L div 16777216 \<noteq> 0" using assms by simp_all
  have nz0: "(word_of_nat (L div 16777216) :: byte) \<noteq> 0"
    using q by (rule byte_of_nat_nonzero)
  have nz1: "(word_of_nat (L div 65536 mod 256) :: byte) \<noteq> 0"
    using assms(3) by (intro byte_of_nat_nonzero) simp_all
  have nz2: "(word_of_nat (L div 256 mod 256) :: byte) \<noteq> 0"
    using assms(4) by (intro byte_of_nat_nonzero) simp_all
  have m0: "(word_of_nat (L div 16777216 mod 256) :: byte) = word_of_nat (L div 16777216)"
    using q by simp
  have big: "\<not> L < 127" using assms by simp
  show ?thesis
    using nz0 nz1 nz2 by (simp add: definiteLengthOctets_def drop_bit_eq_div z m0 big)
qed

lemma js_shl32_wrap:
  assumes "2 ^ 23 \<le> x" "x < 2 ^ 24"
  shows "js_shl32 x 8 = 256 * x - 2 ^ 32"
proof -
  have "push_bit 8 (word_of_int x :: 32 word) = word_of_int (256 * x)"
    by (simp add: push_bit_eq_mult)
  also have "\<dots> = word_of_int (256 * x - 2 ^ 32)"
    by (simp add: word_of_int_eq_iff take_bit_eq_mod)
  finally have "js_shl32 x 8 = sint (word_of_int (256 * x - 2 ^ 32) :: 32 word)"
    by (simp only: js_shl32_def)
  also have "\<dots> = 256 * x - 2 ^ 32"
    by (rule sint32_of_int) (use assms in simp_all)
  finally show ?thesis .
qed

lemma length_fold_three:
  "foldl (\<lambda>len octet. js_shl32 len 8 + uint octet) 0 [0, b, c, d :: byte]
     = 65536 * uint b + 256 * uint c + uint d"
proof -
  have b: "uint b < 256" using uint_lt2p [of b] by simp
  have c: "uint c < 256" using uint_lt2p [of c] by simp
  have 1: "js_shl32 (uint b) 8 = 256 * uint b"
    by (rule js_shl32_small) (use b in simp_all)
  have 2: "js_shl32 (256 * uint b + uint c) 8 = 256 * (256 * uint b + uint c)"
    by (rule js_shl32_small) (use b c in simp_all)
  show ?thesis
    by (simp add: js_shl32_small 1 2)
qed

lemma length_fold_four:
  "foldl (\<lambda>len octet. js_shl32 len 8 + uint octet) 0 [a, b, c, d :: byte]
     = (if uint a < 128
        then 16777216 * uint a + 65536 * uint b + 256 * uint c + uint d
        else 16777216 * uint a + 65536 * uint b + 256 * uint c + uint d - 4294967296)"
proof -
  have a: "uint a < 256" using uint_lt2p [of a] by simp
  have b: "uint b < 256" using uint_lt2p [of b] by simp
  have c: "uint c < 256" using uint_lt2p [of c] by simp
  have 1: "js_shl32 (uint a) 8 = 256 * uint a"
    by (rule js_shl32_small) (use a in simp_all)
  have 2: "js_shl32 (256 * uint a + uint b) 8 = 256 * (256 * uint a + uint b)"
    by (rule js_shl32_small) (use a b in simp_all)
  let ?x = "256 * (256 * uint a + uint b) + uint c"
  have 3: "js_shl32 ?x 8 = (if uint a < 128 then 256 * ?x else 256 * ?x - 2 ^ 32)"
  proof (cases "uint a < 128")
    case True
    then have "js_shl32 ?x 8 = 256 * ?x"
      by (intro js_shl32_small) (use b c in simp_all)
    with True show ?thesis by simp
  next
    case False
    have "8388608 \<le> ?x"
      using False uint_ge_0 [of b] uint_ge_0 [of c] by presburger
    then have lo: "2 ^ 23 \<le> ?x" by simp
    have hi: "?x < 2 ^ 24" using a b c by simp
    have "js_shl32 ?x 8 = 256 * ?x - 2 ^ 32"
      by (rule js_shl32_wrap [OF lo hi])
    with False show ?thesis by simp
  qed
  have 0: "js_shl32 0 8 = 0" by (simp add: js_shl32_small)
  have "foldl (\<lambda>len octet. js_shl32 len 8 + uint octet) 0 [a, b, c, d] = js_shl32 ?x 8 + uint d"
    by (simp only: foldl.simps 0 1 2 add_0)
  then show ?thesis
    by (simp only: 3) (simp split: if_splits)
qed


lemma split_three_octets:
  "65536 * (L div 65536) + 256 * (L div 256 mod 256) + L mod 256 = (L::nat)"
proof -
  have "L mod 65536 = 256 * (L div 256 mod 256) + L mod 256"
    using mod_mult2_eq [of L 256 256] by simp
  moreover have "65536 * (L div 65536) + L mod 65536 = L" by simp
  ultimately show ?thesis by linarith
qed

lemma split_four_octets:
  "16777216 * (L div 16777216) + 65536 * (L div 65536 mod 256)
     + 256 * (L div 256 mod 256) + L mod 256 = (L::nat)"
proof -
  have "L mod 16777216 = 65536 * (L div 65536 mod 256) + L mod 65536"
    using mod_mult2_eq [of L 65536 256] by simp
  moreover have "L mod 65536 = 256 * (L div 256 mod 256) + L mod 256"
    using mod_mult2_eq [of L 256 256] by simp
  moreover have "16777216 * (L div 16777216) + L mod 16777216 = L" by simp
  ultimately show ?thesis by linarith
qed

lemma slice_after:
  "length skipped = k \<Longrightarrow>
     slice_bytes (pre @ skipped @ v @ rest) (k + length pre) (k + length pre + length v) = v"
  by (simp add: slice_bytes_def)

lemma uint_byte_of_nat: "d < 256 \<Longrightarrow> uint (word_of_nat d :: byte) = int d"
  by (simp add: uint_nat byte_of_nat_unat)

lemma definiteLong_three_at:
  assumes "L < 16777216" "length v = L"
  shows "definiteLong (pre @ h # word_of_nat (L div 65536) # word_of_nat (L div 256 mod 256)
                          # word_of_nat (L mod 256) # v @ rest)
             (length pre) 3
           = Inr (v, length pre + 4 + L)"
proof -
  let ?b = "word_of_nat (L div 65536) :: byte"
  let ?c = "word_of_nat (L div 256 mod 256) :: byte"
  let ?d = "word_of_nat (L mod 256) :: byte"
  let ?bytes = "pre @ h # ?b # ?c # ?d # v @ rest"
  have lno: "replicate (4 - 3) 0 @ slice_bytes ?bytes (length pre + 1) (length pre + 1 + 3)
               = [0, ?b, ?c, ?d]"
    by (simp add: slice_bytes_def numeral_3_eq_3)
  have "65536 * (L div 65536) + 256 * (L div 256 mod 256) + L mod 256 = L"
    by (rule split_three_octets)
  then have "65536 * int (L div 65536) + 256 * int (L div 256 mod 256) + int (L mod 256) = int L"
    by linarith
  moreover have "L div 65536 < 256" using assms by simp
  ultimately have ln: "65536 * uint ?b + 256 * uint ?c + uint ?d = int L"
    by (simp add: uint_byte_of_nat)
  have sl: "slice_bytes ?bytes (4 + length pre) (4 + length pre + L) = v"
    using slice_after [of "[h, ?b, ?c, ?d]" 4 pre v rest] assms by simp
  show ?thesis
    unfolding definiteLong_def Let_def lno length_fold_three ln
    using assms sl by simp
qed

lemma definiteLong_four_at:
  assumes "L < 4294967296" "length v = L"
  shows "definiteLong (pre @ h # word_of_nat (L div 16777216) # word_of_nat (L div 65536 mod 256)
                          # word_of_nat (L div 256 mod 256) # word_of_nat (L mod 256) # v @ rest)
             (length pre) 4
           = (if L < 2147483648 then Inr (v, length pre + 5 + L) else Inl ASN1OverflowError)"
proof -
  let ?a = "word_of_nat (L div 16777216) :: byte"
  let ?b = "word_of_nat (L div 65536 mod 256) :: byte"
  let ?c = "word_of_nat (L div 256 mod 256) :: byte"
  let ?d = "word_of_nat (L mod 256) :: byte"
  let ?bytes = "pre @ h # ?a # ?b # ?c # ?d # v @ rest"
  have lno: "replicate (4 - 4) 0 @ slice_bytes ?bytes (length pre + 1) (length pre + 1 + 4)
               = [?a, ?b, ?c, ?d]"
    by (simp add: slice_bytes_def)
  have "16777216 * (L div 16777216) + 65536 * (L div 65536 mod 256)
          + 256 * (L div 256 mod 256) + L mod 256 = L"
    by (rule split_four_octets)
  then have "16777216 * int (L div 16777216) + 65536 * int (L div 65536 mod 256)
          + 256 * int (L div 256 mod 256) + int (L mod 256) = int L"
    by linarith
  moreover have a: "L div 16777216 < 256" using assms by simp
  ultimately have ln: "16777216 * uint ?a + 65536 * uint ?b + 256 * uint ?c + uint ?d = int L"
    by (simp add: uint_byte_of_nat)
  have top: "uint ?a < 128 \<longleftrightarrow> L < 2147483648"
    using a by (simp add: uint_byte_of_nat) linarith
  have sl: "slice_bytes ?bytes (5 + length pre) (5 + length pre + L) = v"
    using slice_after [of "[h, ?a, ?b, ?c, ?d]" 5 pre v rest] assms by simp
  show ?thesis
  proof (cases "L < 2147483648")
    case True
    then have fold: "foldl (\<lambda>len octet. js_shl32 len 8 + uint octet) 0 [?a, ?b, ?c, ?d] = int L"
      by (simp only: length_fold_four top ln if_True)
    show ?thesis
      unfolding definiteLong_def Let_def lno fold
      using assms sl True by simp
  next
    case False
    then have fold: "foldl (\<lambda>len octet. js_shl32 len 8 + uint octet) 0 [?a, ?b, ?c, ?d]
                       = int L - 4294967296"
      by (simp only: length_fold_four top ln if_False)
    show ?thesis
      unfolding definiteLong_def Let_def lno fold
      using assms False by simp
  qed
qed

subsection \<open>Tag numbers\<close>

lemma shift_or_digit: "b < 128 \<Longrightarrow> push_bit 7 (a::nat) OR b = a * 128 + b"
proof -
  assume b: "b < 128"
  then have tb: "take_bit 7 b = b" by (simp add: take_bit_nat_eq_self)
  have "push_bit 7 a AND take_bit 7 b = 0"
    by (rule bit_eqI) (auto simp: bit_simps)
  then have "push_bit 7 a + take_bit 7 b = push_bit 7 a OR take_bit 7 b"
    by (rule disjunctive_add_eq_or)
  then show ?thesis by (simp add: push_bit_eq_mult tb)
qed

lemma decodeTagNumber_short:
  assumes "unat (first AND 0x1F) < 31"
  shows "decodeTagNumber (first # r) = Inr (unat (first AND 0x1F), 1)"
  using assms by (simp add: decodeTagNumber_def js_index_def js_and_def)

lemma js_index_Cons:
  "js_index (x # xs) i = (if i = 0 then Some x else js_index xs (i - 1))"
  by (cases i) (simp_all add: js_index_def)

lemma upt_1_2: "[Suc 0..<2] = [Suc 0]" and upt_1_3: "[Suc 0..<3] = [Suc 0, 2]"
  and upt_1_4: "[Suc 0..<4] = [Suc 0, 2, 3]"
  by (simp_all add: upt_rec)

lemma decodeTagNumber_longI:
  assumes "31 \<le> unat (js_and (js_index bytes 0) 0x1F)"
    and "js_index bytes 1 \<noteq> Some 0x80"
    and "tagNumberEnd bytes (if length bytes - 1 \<ge> 4 then 4 else length bytes - 1) 1 = c"
    and "js_and (js_index bytes (c - 1)) 0x80 = 0"
    and "foldl (\<lambda>tagNumber i. push_bit 7 tagNumber OR unat (js_and (js_index bytes i) 0x7F))
           0 [1..<c] = n"
    and "31 < n"
  shows "decodeTagNumber bytes = Inr (n, c)"
  using assms by (simp add: decodeTagNumber_def Let_def)

lemma decodeTagNumber_long1:
  assumes flag: "unat (first AND 0x1F) = 31" and d0: "d0 < 128" "31 < d0"
  shows "decodeTagNumber (first # word_of_nat d0 # x # r) = Inr (d0, 2)"
proof (rule decodeTagNumber_longI)
  let ?bytes = "first # word_of_nat d0 # x # r"
  let ?limit = "if length ?bytes - 1 \<ge> 4 then 4 else length ?bytes - 1"
  show "31 \<le> unat (js_and (js_index ?bytes 0) 0x1F)"
    using flag by (simp add: js_index_Cons js_and_def)
  show "js_index ?bytes 1 \<noteq> Some 0x80"
    using d0 by (simp add: js_index_Cons byte_eq_iff byte_of_nat_unat)
  have lim: "1 < ?limit" by simp
  have stop: "js_and (js_index ?bytes 1) 0x80 = 0"
    using d0 by (simp add: js_index_Cons js_and_def low7_small)
  show "tagNumberEnd ?bytes ?limit 1 = 2"
    using tagNumberEnd_stop [OF lim stop] by simp
  show "js_and (js_index ?bytes (2 - 1)) 0x80 = 0"
    using stop by simp
  show "foldl (\<lambda>tagNumber i. push_bit 7 tagNumber OR unat (js_and (js_index ?bytes i) 0x7F))
          0 [1..<2] = d0"
    using d0 by (simp add: upt_1_2 js_index_Cons js_and_def low7_value)
  show "31 < d0" by fact
qed

lemma decodeTagNumber_long2:
  assumes flag: "unat (first AND 0x1F) = 31" and d1: "d1 < 128" "d1 \<noteq> 0" and d0: "d0 < 128"
  shows "decodeTagNumber (first # (word_of_nat d1 OR 0x80) # word_of_nat d0 # x # r)
           = Inr (d1 * 128 + d0, 3)"
proof (rule decodeTagNumber_longI)
  let ?bytes = "first # (word_of_nat d1 OR 0x80) # word_of_nat d0 # x # r"
  let ?limit = "if length ?bytes - 1 \<ge> 4 then 4 else length ?bytes - 1"
  show "31 \<le> unat (js_and (js_index ?bytes 0) 0x1F)"
    using flag by (simp add: js_index_Cons js_and_def)
  show "js_index ?bytes 1 \<noteq> Some 0x80"
    using d1 by (simp add: js_index_Cons cont_padding)
  have lim1: "1 < ?limit" and lim2: "1 + 1 < ?limit" by simp_all
  have go1: "js_and (js_index ?bytes 1) 0x80 \<noteq> 0"
    using d1 by (simp add: js_index_Cons js_and_def cont_flag)
  have stop: "js_and (js_index ?bytes (1 + 1)) 0x80 = 0"
    using d0 by (simp add: js_index_Cons js_and_def low7_small)
  have "tagNumberEnd ?bytes ?limit 1 = tagNumberEnd ?bytes ?limit (1 + 1)"
    by (rule tagNumberEnd_step [OF lim1 go1])
  also have "\<dots> = 1 + 1 + 1"
    by (rule tagNumberEnd_stop [OF lim2 stop])
  finally show "tagNumberEnd ?bytes ?limit 1 = 3" by simp
  show "js_and (js_index ?bytes (3 - 1)) 0x80 = 0"
    using d0 by (simp add: js_index_Cons js_and_def low7_small)
  show "foldl (\<lambda>tagNumber i. push_bit 7 tagNumber OR unat (js_and (js_index ?bytes i) 0x7F))
          0 [1..<3] = d1 * 128 + d0"
    using d0 d1 by (simp add: upt_1_3 js_index_Cons js_and_def low7_value cont_value shift_or_digit)
  show "31 < d1 * 128 + d0" using d1 by simp
qed

lemma decodeTagNumber_long3:
  assumes flag: "unat (first AND 0x1F) = 31" and d2: "d2 < 128" "d2 \<noteq> 0"
    and d1: "d1 < 128" and d0: "d0 < 128"
  shows "decodeTagNumber
           (first # (word_of_nat d2 OR 0x80) # (word_of_nat d1 OR 0x80) # word_of_nat d0 # x # r)
           = Inr ((d2 * 128 + d1) * 128 + d0, 4)"
proof (rule decodeTagNumber_longI)
  let ?bytes = "first # (word_of_nat d2 OR 0x80) # (word_of_nat d1 OR 0x80) # word_of_nat d0 # x # r"
  let ?limit = "if length ?bytes - 1 \<ge> 4 then 4 else length ?bytes - 1"
  show "31 \<le> unat (js_and (js_index ?bytes 0) 0x1F)"
    using flag by (simp add: js_index_Cons js_and_def)
  show "js_index ?bytes 1 \<noteq> Some 0x80"
    using d2 by (simp add: js_index_Cons cont_padding)
  have lim1: "1 < ?limit" and lim2: "1 + 1 < ?limit" and lim3: "1 + 1 + 1 < ?limit" by simp_all
  have go1: "js_and (js_index ?bytes 1) 0x80 \<noteq> 0"
    using d2 by (simp add: js_index_Cons js_and_def cont_flag)
  have go2: "js_and (js_index ?bytes (1 + 1)) 0x80 \<noteq> 0"
    using d1 by (simp add: js_index_Cons js_and_def cont_flag)
  have stop: "js_and (js_index ?bytes (1 + 1 + 1)) 0x80 = 0"
    using d0 by (simp add: js_index_Cons js_and_def low7_small)
  have "tagNumberEnd ?bytes ?limit 1 = tagNumberEnd ?bytes ?limit (1 + 1)"
    by (rule tagNumberEnd_step [OF lim1 go1])
  also have "\<dots> = tagNumberEnd ?bytes ?limit (1 + 1 + 1)"
    by (rule tagNumberEnd_step [OF lim2 go2])
  also have "\<dots> = 1 + 1 + 1 + 1"
    by (rule tagNumberEnd_stop [OF lim3 stop])
  finally show "tagNumberEnd ?bytes ?limit 1 = 4" by simp
  show "js_and (js_index ?bytes (4 - 1)) 0x80 = 0"
    using d0 by (simp add: js_index_Cons js_and_def low7_small)
  show "foldl (\<lambda>tagNumber i. push_bit 7 tagNumber OR unat (js_and (js_index ?bytes i) 0x7F))
          0 [1..<4] = (d2 * 128 + d1) * 128 + d0"
    using d0 d1 d2
    by (simp add: upt_1_4 js_index_Cons js_and_def low7_value cont_value shift_or_digit)
  show "31 < (d2 * 128 + d1) * 128 + d0" using d2 by simp
qed

lemma encodeTagNumber_zero: "encodeTagNumber 0 acc = acc"
  by (subst encodeTagNumber.simps) simp

lemma encodeTagNumber_step:
  "n \<noteq> 0 \<Longrightarrow> n < 2 ^ 32 \<Longrightarrow>
     encodeTagNumber n acc = encodeTagNumber (n div 128) ((word_of_nat (n mod 128) OR 0x80) # acc)"
  by (subst encodeTagNumber.simps) simp

lemma encodeTagNumber_one:
  assumes "31 \<le> n" "n < 128"
  shows "encodeTagNumber n [] = [word_of_nat n OR 0x80]"
  using assms by (simp add: encodeTagNumber_step encodeTagNumber_zero)

lemma encodeTagNumber_two:
  assumes "128 \<le> n" "n < 16384"
  shows "encodeTagNumber n [] = [word_of_nat (n div 128) OR 0x80, word_of_nat (n mod 128) OR 0x80]"
proof -
  have q: "n div 128 \<noteq> 0" "n div 128 < 2 ^ 32" "n div 128 div 128 = 0" "n div 128 mod 128 = n div 128"
    using assms by simp_all
  have "encodeTagNumber n [] = encodeTagNumber (n div 128) [word_of_nat (n mod 128) OR 0x80]"
    using assms by (simp add: encodeTagNumber_step)
  also have "\<dots> = encodeTagNumber (n div 128 div 128)
      [word_of_nat (n div 128 mod 128) OR 0x80, word_of_nat (n mod 128) OR 0x80]"
    by (rule encodeTagNumber_step [OF q(1) q(2)])
  finally show ?thesis by (simp add: q encodeTagNumber_zero)
qed

lemma encodeTagNumber_three:
  assumes "16384 \<le> n" "n < 2097152"
  shows "encodeTagNumber n [] =
           [word_of_nat (n div 16384) OR 0x80, word_of_nat (n div 128 mod 128) OR 0x80,
            word_of_nat (n mod 128) OR 0x80]"
proof -
  have q: "n div 128 \<noteq> 0" "n div 128 < 2 ^ 32" using assms by simp_all
  have r: "n div 128 div 128 \<noteq> 0" "n div 128 div 128 < 2 ^ 32"
    "n div 128 div 128 div 128 = 0" "n div 128 div 128 mod 128 = n div 128 div 128"
    using assms by simp_all
  have d: "n div 128 div 128 = n div 16384" by (simp add: div_mult2_eq [symmetric])
  have "encodeTagNumber n [] = encodeTagNumber (n div 128) [word_of_nat (n mod 128) OR 0x80]"
    using assms by (simp add: encodeTagNumber_step)
  also have "\<dots> = encodeTagNumber (n div 128 div 128)
      [word_of_nat (n div 128 mod 128) OR 0x80, word_of_nat (n mod 128) OR 0x80]"
    by (rule encodeTagNumber_step [OF q])
  also have "\<dots> = encodeTagNumber (n div 128 div 128 div 128)
      [word_of_nat (n div 128 div 128 mod 128) OR 0x80,
       word_of_nat (n div 128 mod 128) OR 0x80, word_of_nat (n mod 128) OR 0x80]"
    by (rule encodeTagNumber_step [OF r(1) r(2)])
  finally have "encodeTagNumber n [] = encodeTagNumber 0
      [word_of_nat (n div 128 div 128) OR 0x80,
       word_of_nat (n div 128 mod 128) OR 0x80, word_of_nat (n mod 128) OR 0x80]"
    by (simp only: r)
  then show ?thesis by (simp only: encodeTagNumber_zero d)
qed

lemma low5_id: "t < 32 \<Longrightarrow> (word_of_nat t :: byte) AND 0x1F = word_of_nat t"
  by (simp add: byte_eq_iff and1F byte_of_nat_unat)

lemma low5_masks:
  assumes "(x::byte) AND 0x1F = x"
  shows "x AND 0xC0 = 0" and "x AND 0x20 = 0"
proof -
  have "x AND 0xC0 = (x AND 0x1F) AND 0xC0" by (simp only: assms)
  also have "\<dots> = x AND (0x1F AND 0xC0)" by (simp only: and.assoc)
  finally show "x AND 0xC0 = 0" by simp
  have "x AND 0x20 = (x AND 0x1F) AND 0x20" by (simp only: assms)
  also have "\<dots> = x AND (0x1F AND 0x20)" by (simp only: and.assoc)
  finally show "x AND 0x20 = 0" by simp
qed

lemma identifier_octet:
  assumes "(x::byte) AND 0x1F = x"
  shows "decodeTagClass (identifierBits e OR x) = tagClass e"
    and "(identifierBits e OR x) AND 0x20 \<noteq> 0 \<longleftrightarrow> construction e = constructed"
    and "(identifierBits e OR x) AND 0x1F = x"
proof -
  note m = low5_masks [OF assms]
  show "decodeTagClass (identifierBits e OR x) = tagClass e"
    by (cases "tagClass e"; cases "construction e")
       (simp_all add: identifierBits_def decodeTagClass_def bit.conj_disj_distrib2 m)
  show "(identifierBits e OR x) AND 0x20 \<noteq> 0 \<longleftrightarrow> construction e = constructed"
    by (cases "tagClass e"; cases "construction e")
       (simp_all add: identifierBits_def bit.conj_disj_distrib2 m)
  show "(identifierBits e OR x) AND 0x1F = x"
    by (cases "tagClass e"; cases "construction e")
       (simp_all add: identifierBits_def bit.conj_disj_distrib2 assms)
qed

lemma tagBytes_short:
  "tagNumber e < 31 \<Longrightarrow> tagBytes e = [identifierBits e OR word_of_nat (tagNumber e)]"
  by (simp add: tagBytes_def identifierBits_def)

lemma tagBytes_long:
  assumes "31 \<le> tagNumber e"
  shows "tagBytes e =
           (identifierBits e OR 0x1F)
             # (let encodedNumber = encodeTagNumber (tagNumber e) []
                in if encodedNumber = [] then []
                   else butlast encodedNumber @ [last encodedNumber AND 0x7F])"
  using assms by (simp add: tagBytes_def identifierBits_def Let_def)

lemma tagBytes_one:
  assumes "31 \<le> tagNumber e" "tagNumber e < 128"
  shows "tagBytes e = [identifierBits e OR 0x1F, word_of_nat (tagNumber e)]"
  using assms by (simp add: tagBytes_long [OF assms(1)] encodeTagNumber_one cont_strip)

lemma tagBytes_two:
  assumes "128 \<le> tagNumber e" "tagNumber e < 16384"
  shows "tagBytes e = [identifierBits e OR 0x1F, word_of_nat (tagNumber e div 128) OR 0x80,
                       word_of_nat (tagNumber e mod 128)]"
proof -
  have "31 \<le> tagNumber e" using assms by simp
  then show ?thesis
    using assms by (simp add: tagBytes_long encodeTagNumber_two cont_strip)
qed

lemma tagBytes_three:
  assumes "16384 \<le> tagNumber e" "tagNumber e < 2097152"
  shows "tagBytes e = [identifierBits e OR 0x1F, word_of_nat (tagNumber e div 16384) OR 0x80,
                       word_of_nat (tagNumber e div 128 mod 128) OR 0x80,
                       word_of_nat (tagNumber e mod 128)]"
proof -
  have "31 \<le> tagNumber e" using assms by simp
  then show ?thesis
    using assms by (simp add: tagBytes_long encodeTagNumber_three cont_strip)
qed

lemma tagBytes_decode:
  assumes range: "tagNumber e < 31 \<or> 32 \<le> tagNumber e \<and> tagNumber e < 2097152"
  shows "decodeTagNumber (tagBytes e @ x # r) = Inr (tagNumber e, length (tagBytes e))"
    and "decodeTagClass ((tagBytes e @ x # r) ! 0) = tagClass e"
    and "((tagBytes e @ x # r) ! 0) AND 0x20 \<noteq> 0 \<longleftrightarrow> construction e = constructed"
proof -
  let ?n = "tagNumber e"
  have m31: "(0x1F :: byte) AND 0x1F = 0x1F" by simp
  consider (s) "?n < 31" | (a) "32 \<le> ?n" "?n < 128" | (b) "128 \<le> ?n" "?n < 16384"
    | (c) "16384 \<le> ?n" "?n < 2097152"
    using range by linarith
  then have "decodeTagNumber (tagBytes e @ x # r) = Inr (tagNumber e, length (tagBytes e))
      \<and> decodeTagClass ((tagBytes e @ x # r) ! 0) = tagClass e
      \<and> (((tagBytes e @ x # r) ! 0) AND 0x20 \<noteq> 0 \<longleftrightarrow> construction e = constructed)"
  proof cases
    case s
    then have l: "(word_of_nat ?n :: byte) AND 0x1F = word_of_nat ?n" by (simp add: low5_id)
    have u: "unat (word_of_nat ?n :: byte) = ?n" using s by (simp add: byte_of_nat_unat)
    show ?thesis
      using s decodeTagNumber_short [of "identifierBits e OR word_of_nat ?n" "x # r"]
      by (simp add: tagBytes_short identifier_octet [OF l] u)
  next
    case a
    have f: "unat ((identifierBits e OR 0x1F) AND 0x1F) = 31"
      by (simp add: identifier_octet(3) [OF m31])
    have "31 < ?n" using a by simp
    from decodeTagNumber_long1 [OF f a(2) this, of x r] a show ?thesis
      by (simp add: tagBytes_one identifier_octet [OF m31])
  next
    case b
    have f: "unat ((identifierBits e OR 0x1F) AND 0x1F) = 31"
      by (simp add: identifier_octet(3) [OF m31])
    have d: "?n div 128 < 128" "?n div 128 \<noteq> 0" "?n mod 128 < 128" using b by simp_all
    from decodeTagNumber_long2 [OF f d, of x r] b show ?thesis
      by (simp add: tagBytes_two identifier_octet [OF m31])
  next
    case c
    have f: "unat ((identifierBits e OR 0x1F) AND 0x1F) = 31"
      by (simp add: identifier_octet(3) [OF m31])
    have d: "?n div 16384 < 128" "?n div 16384 \<noteq> 0" "?n div 128 mod 128 < 128" "?n mod 128 < 128"
      using c by simp_all
    have v: "(?n div 16384 * 128 + ?n div 128 mod 128) * 128 + ?n mod 128 = ?n"
    proof -
      have "?n div 16384 = ?n div 128 div 128" by (simp add: div_mult2_eq [symmetric])
      then show ?thesis by simp
    qed
    from decodeTagNumber_long3 [OF f d, of x r, unfolded v] c show ?thesis
      by (simp add: tagBytes_three identifier_octet [OF m31])
  qed
  then show "decodeTagNumber (tagBytes e @ x # r) = Inr (tagNumber e, length (tagBytes e))"
    and "decodeTagClass ((tagBytes e @ x # r) ! 0) = tagClass e"
    and "((tagBytes e @ x # r) ! 0) AND 0x20 \<noteq> 0 \<longleftrightarrow> construction e = constructed"
    by blast+
qed

subsection \<open>Definite-length elements\<close>

lemma fromBytes_definite:
  assumes dt: "decodeTagNumber bytes = Inr (tn, length pre)"
    and bytes: "bytes = pre @ definiteLengthOctets (length v) @ v @ rest"
    and pre: "pre \<noteq> []"
    and rc: "recursionCount this + 1 \<le> nestingRecursionLimit"
    and L: "length v < 65536"
  shows "fromBytes this bytes =
           Inr (this\<lparr>tagClass := decodeTagClass (bytes ! 0),
                     construction := (if bytes ! 0 AND 0x20 \<noteq> 0 then constructed else primitive),
                     tagNumber := tn, val := v\<rparr>,
                length pre + length (definiteLengthOctets (length v)) + length v)"
proof -
  let ?L = "length v"
  let ?c = "length pre"
  have len2: "\<not> length bytes < 2"
    using pre by (cases pre) (auto simp: bytes definiteLengthOctets_def Let_def)
  have rc': "\<not> nestingRecursionLimit < Suc (recursionCount this)" using rc by simp
  consider (short) "?L < 127" | (one) "127 \<le> ?L" "?L < 256" | (two) "256 \<le> ?L" "?L < 65536"
    using L by linarith
  then show ?thesis
  proof cases
    case short
    then have b: "bytes = pre @ word_of_nat ?L # v @ rest"
      by (simp add: bytes definiteLengthOctets_short)
    have hi: "js_and (js_index bytes ?c) 0x80 \<noteq> 0x80"
      using short by (simp add: b js_index_at js_and_def low7_small)
    have ds: "definiteShort bytes ?c = Inr (v, ?c + 1 + ?L)"
      unfolding b by (rule definiteShort_at) (use short in simp_all)
    show ?thesis
      by (subst fromBytes.simps)
         (simp add: len2 rc' dt hi ds Let_def definiteLengthOctets_short short)
  next
    case one
    then have b: "bytes = pre @ 0x81 # word_of_nat ?L # v @ rest"
      by (simp add: bytes definiteLengthOctets_one)
    have hi: "js_and (js_index bytes ?c) 0x80 = 0x80"
      by (simp add: b js_index_at js_and_def)
    have k: "unat (js_and (js_index bytes ?c) 0x7F) = 1"
      by (simp add: b js_index_at js_and_def)
    have dl: "definiteLong bytes ?c (Suc 0) = Inr (v, ?c + 2 + ?L)"
      unfolding b using definiteLong_one_at [of ?L v pre "0x81" rest] one by simp
    show ?thesis
      by (subst fromBytes.simps)
         (simp add: len2 rc' dt hi k dl Let_def definiteLengthOctets_one one)
  next
    case two
    then have b: "bytes = pre @ 0x82 # word_of_nat (?L div 256) # word_of_nat (?L mod 256) # v @ rest"
      by (simp add: bytes definiteLengthOctets_two)
    have hi: "js_and (js_index bytes ?c) 0x80 = 0x80"
      by (simp add: b js_index_at js_and_def)
    have k: "unat (js_and (js_index bytes ?c) 0x7F) = 2"
      by (simp add: b js_index_at js_and_def)
    have dl: "definiteLong bytes ?c 2 = Inr (v, ?c + 3 + ?L)"
      unfolding b by (rule definiteLong_two_at) (use two in simp_all)
    show ?thesis
      by (subst fromBytes.simps)
         (simp add: len2 rc' dt hi k dl Let_def definiteLengthOctets_two two)
  qed
qed

lemma fromBytes_definite_long:
  assumes dt: "decodeTagNumber bytes = Inr (tn, length pre)"
    and bytes: "bytes = pre @ definiteLengthOctets (length v) @ v @ rest"
    and pre: "pre \<noteq> []"
    and rc: "recursionCount this + 1 \<le> nestingRecursionLimit"
    and L: "65536 \<le> length v" "length v < 4294967296"
    and nz: "16777216 \<le> length v \<longrightarrow> length v div 65536 mod 256 \<noteq> 0"
            "length v div 256 mod 256 \<noteq> 0"
  shows "fromBytes this bytes =
           (if length v < 2147483648
            then Inr (this\<lparr>tagClass := decodeTagClass (bytes ! 0),
                           construction := (if bytes ! 0 AND 0x20 \<noteq> 0 then constructed else primitive),
                           tagNumber := tn, val := v\<rparr>,
                      length pre + length (definiteLengthOctets (length v)) + length v)
            else Inl ASN1OverflowError)"
proof -
  let ?L = "length v"
  let ?c = "length pre"
  have len2: "\<not> length bytes < 2"
    using pre by (cases pre) (auto simp: bytes definiteLengthOctets_def Let_def)
  have rc': "\<not> nestingRecursionLimit < Suc (recursionCount this)" using rc by simp
  consider (three) "?L < 16777216" | (four) "16777216 \<le> ?L"
    by linarith
  then show ?thesis
  proof cases
    case three
    have lo: "definiteLengthOctets ?L
                = [0x83, word_of_nat (?L div 65536), word_of_nat (?L div 256 mod 256),
                   word_of_nat (?L mod 256)]"
      by (rule definiteLengthOctets_three [OF L(1) three nz(2)])
    have b: "bytes = pre @ 0x83 # word_of_nat (?L div 65536) # word_of_nat (?L div 256 mod 256)
                       # word_of_nat (?L mod 256) # v @ rest"
      by (simp add: bytes lo)
    have hi: "js_and (js_index bytes ?c) 0x80 = 0x80"
      by (simp add: b js_index_at js_and_def)
    have k: "unat (js_and (js_index bytes ?c) 0x7F) = 3"
      by (simp add: b js_index_at js_and_def)
    have dl: "definiteLong bytes ?c 3 = Inr (v, ?c + 4 + ?L)"
      unfolding b by (rule definiteLong_three_at) (use three in simp_all)
    have small: "?L < 2147483648" using three by simp
    show ?thesis
      by (subst fromBytes.simps)
         (simp add: len2 rc' dt hi k dl Let_def lo small)
  next
    case four
    have lo: "definiteLengthOctets ?L
                = [0x84, word_of_nat (?L div 16777216), word_of_nat (?L div 65536 mod 256),
                   word_of_nat (?L div 256 mod 256), word_of_nat (?L mod 256)]"
      using nz four by (intro definiteLengthOctets_four [OF four L(2)]) simp_all
    have b: "bytes = pre @ 0x84 # word_of_nat (?L div 16777216) # word_of_nat (?L div 65536 mod 256)
                       # word_of_nat (?L div 256 mod 256) # word_of_nat (?L mod 256) # v @ rest"
      by (simp add: bytes lo)
    have hi: "js_and (js_index bytes ?c) 0x80 = 0x80"
      by (simp add: b js_index_at js_and_def)
    have k: "unat (js_and (js_index bytes ?c) 0x7F) = 4"
      by (simp add: b js_index_at js_and_def)
    have dl: "definiteLong bytes ?c 4
                = (if ?L < 2147483648 then Inr (v, ?c + 5 + ?L) else Inl ASN1OverflowError)"
      unfolding b by (rule definiteLong_four_at) (use L in simp_all)
    show ?thesis
      by (subst fromBytes.simps)
         (simp add: len2 rc' dt hi k dl Let_def lo)
  qed
qed

lemma fromBytes_short_form:
  assumes dt: "decodeTagNumber bytes = Inr (tn, length pre)"
    and bytes: "bytes = pre @ word_of_nat (length v) # v @ rest"
    and pre: "pre \<noteq> []"
    and rc: "recursionCount this + 1 \<le> nestingRecursionLimit"
    and L: "length v \<le> 127"
  shows "fromBytes this bytes =
           Inr (this\<lparr>tagClass := decodeTagClass (bytes ! 0),
                     construction := (if bytes ! 0 AND 0x20 \<noteq> 0 then constructed else primitive),
                     tagNumber := tn, val := v\<rparr>,
                length pre + 1 + length v)"
proof -
  let ?L = "length v"
  let ?c = "length pre"
  have len2: "\<not> length bytes < 2"
    using pre by (cases pre) (auto simp: bytes)
  have rc': "\<not> nestingRecursionLimit < Suc (recursionCount this)" using rc by simp
  have small: "?L < 128" using L by simp
  have hi: "js_and (js_index bytes ?c) 0x80 \<noteq> 0x80"
    using small by (simp add: bytes js_index_at js_and_def low7_small)
  have ds: "definiteShort bytes ?c = Inr (v, ?c + 1 + ?L)"
    unfolding bytes by (rule definiteShort_at) (use small in simp_all)
  show ?thesis
    by (subst fromBytes.simps) (simp add: len2 rc' dt hi ds Let_def)
qed

subsection \<open>Continuation octets\<close>

lemma byte_low:
  assumes "(b::byte) AND 0x80 = 0"
  obtains d where "d < 128" "b = word_of_nat d" "unat (b AND 0x7F) = d"
proof
  let ?d = "unat b"
  show "?d < 128" using assms by (simp add: and80_zero)
  then show "unat (b AND 0x7F) = ?d" by (simp add: and7F)
  show "b = word_of_nat ?d" by simp
qed

lemma byte_high:
  assumes "(b::byte) AND 0x80 \<noteq> 0"
  obtains d where "d < 128" "b = word_of_nat d OR 0x80" "unat (b AND 0x7F) = d"
proof
  let ?d = "unat b - 128"
  have lt: "unat b < 256" using unsigned_less [of b] by simp
  have ge: "128 \<le> unat b" using assms and80_zero [of b] by simp
  show d: "?d < 128" using lt by simp
  have "unat (word_of_nat ?d OR 0x80 :: byte) = ?d + 128" by (rule or80 [OF d])
  also have "\<dots> = unat b" using ge by simp
  finally show "b = word_of_nat ?d OR 0x80" by (simp only: byte_eq_iff)
  show "unat (b AND 0x7F) = ?d"
    using ge lt by (simp add: and7F mod_if)
qed

lemma foldl_digits_lower:
  "a * 128 ^ length cs \<le> foldl (\<lambda>a b. a * 128 + unat ((b::byte) AND 0x7F)) a cs"
proof (induction cs arbitrary: a)
  case Nil
  show ?case by simp
next
  case (Cons c cs)
  have "a * 128 ^ length (c # cs) = (a * 128) * 128 ^ length cs" by simp
  also have "\<dots> \<le> (a * 128 + unat (c AND 0x7F)) * 128 ^ length cs"
    by (rule mult_le_mono1) simp
  also have "\<dots> \<le> foldl (\<lambda>a b. a * 128 + unat (b AND 0x7F)) (a * 128 + unat (c AND 0x7F)) cs"
    by (rule Cons.IH)
  finally show ?case by simp
qed

lemma foldl_digits_upper:
  "foldl (\<lambda>a b. a * 128 + unat ((b::byte) AND 0x7F)) a cs < (a + 1) * 128 ^ length cs"
proof (induction cs arbitrary: a)
  case Nil
  show ?case by simp
next
  case (Cons c cs)
  have d: "unat (c AND 0x7F) < 128" by (simp add: and7F)
  have "foldl (\<lambda>a b. a * 128 + unat (b AND 0x7F)) (a * 128 + unat (c AND 0x7F)) cs
          < (a * 128 + unat (c AND 0x7F) + 1) * 128 ^ length cs"
    by (rule Cons.IH)
  also have "\<dots> \<le> ((a + 1) * 128) * 128 ^ length cs"
    by (rule mult_le_mono1) (use d in simp)
  also have "\<dots> = (a + 1) * 128 ^ length (c # cs)" by (simp add: algebra_simps)
  finally show ?case by simp
qed

lemma base128Value_upper: "base128Value cs < 128 ^ length cs"
  using foldl_digits_upper [of 0 cs] by (simp add: base128Value_def)

lemma base128Value_Cons_lower:
  "unat (c AND 0x7F) * 128 ^ length cs \<le> base128Value (c # cs)"
  using foldl_digits_lower [of "unat (c AND 0x7F)" cs] by (simp add: base128Value_def)

lemma continuationOctets_Cons:
  "continuationOctets (c # cs) \<longleftrightarrow>
     (if cs = [] then c AND 0x80 = 0 else c AND 0x80 \<noteq> 0 \<and> continuationOctets cs)"
  by (auto simp: continuationOctets_def)

lemma short_list_cases:
  assumes "xs \<noteq> []" "length xs \<le> 3"
  shows "(\<exists>a. xs = [a]) \<or> (\<exists>a b. xs = [a, b]) \<or> (\<exists>a b c. xs = [a, b, c])"
proof (cases xs)
  case Nil
  with assms show ?thesis by simp
next
  case (Cons a t1)
  show ?thesis
  proof (cases t1)
    case Nil
    with Cons show ?thesis by simp
  next
    case (Cons b t2)
    note t1 = this
    show ?thesis
    proof (cases t2)
      case Nil
      with \<open>xs = a # t1\<close> t1 show ?thesis by simp
    next
      case (Cons c t3)
      with \<open>xs = a # t1\<close> t1 assms(2) show ?thesis by simp
    qed
  qed
qed

lemma flag_value: "(ident::byte) AND 0x1F = 0x1F \<Longrightarrow> unat (ident AND 0x1F) = 31"
  by simp

lemma leading_digit:
  assumes "c AND 0x80 \<noteq> 0" "(c::byte) \<noteq> 0x80"
  shows "1 \<le> unat (c AND 0x7F)"
proof (rule ccontr)
  assume "\<not> 1 \<le> unat (c AND 0x7F)"
  then have "unat (c AND 0x7F) = 0" by simp
  then have z: "c AND 0x7F = 0" by (simp add: byte_eq_iff)
  from assms(1) and80_cases [of c] have "c AND 0x80 = 0x80" by blast
  from high_bit_only [OF this z] assms(2) show False by contradiction
qed

lemma minimal_length:
  assumes cont: "continuationOctets cs" and mini: "hd cs \<noteq> 0x80"
    and hi: "base128Value cs < 2097152"
  shows "length cs \<le> 3"
proof (rule ccontr)
  assume "\<not> length cs \<le> 3"
  then obtain c cs' where cs: "cs = c # cs'" and l: "3 \<le> length cs'"
    by (cases cs) auto
  then have "cs' \<noteq> []" by auto
  with cont cs have "c AND 0x80 \<noteq> 0" by (simp add: continuationOctets_Cons)
  moreover from mini cs have "c \<noteq> 0x80" by simp
  ultimately have "1 \<le> unat (c AND 0x7F)" by (rule leading_digit)
  then have d: "1 * 128 ^ length cs' \<le> unat (c AND 0x7F) * 128 ^ length cs'"
    by (rule mult_le_mono1)
  have "(2097152::nat) = 128 ^ 3" by simp
  also have "\<dots> \<le> 128 ^ length cs'"
    using l by (intro power_increasing) simp_all
  also have "\<dots> \<le> unat (c AND 0x7F) * 128 ^ length cs'" using d by simp
  also have "\<dots> \<le> base128Value cs"
    unfolding cs by (rule base128Value_Cons_lower)
  finally show False using hi by simp
qed

lemma decodeTagNumber_minimal:
  assumes flag: "ident AND 0x1F = 0x1F" and cont: "continuationOctets cs"
    and mini: "hd cs \<noteq> 0x80"
    and lo: "32 \<le> base128Value cs" and hi: "base128Value cs < 2097152"
  shows "decodeTagNumber (ident # cs @ x # r) = Inr (base128Value cs, 1 + length cs)"
proof -
  note f = flag_value [OF flag]
  have "length cs \<le> 3" by (rule minimal_length [OF cont mini hi])
  moreover have "cs \<noteq> []" using cont by (simp add: continuationOctets_def)
  ultimately consider (one) c0 where "cs = [c0]" | (two) c1 c0 where "cs = [c1, c0]"
    | (three) c2 c1 c0 where "cs = [c2, c1, c0]"
    using short_list_cases [of cs] by blast
  then show ?thesis
  proof cases
    case one
    with cont have "c0 AND 0x80 = 0" by (simp add: continuationOctets_Cons)
    then obtain d0 where d0: "d0 < 128" "c0 = word_of_nat d0" "unat (c0 AND 0x7F) = d0"
      by (rule byte_low)
    have v: "base128Value [c0] = d0" by (simp add: base128Value_def d0(3))
    with lo one have "31 < d0" by simp
    from decodeTagNumber_long1 [OF f d0(1) this, of x r]
    have "decodeTagNumber (ident # c0 # x # r) = Inr (d0, 2)"
      by (simp only: d0(2) [symmetric])
    then show ?thesis by (simp add: one v)
  next
    case two
    with cont have "c1 AND 0x80 \<noteq> 0" "c0 AND 0x80 = 0" by (simp_all add: continuationOctets_Cons)
    then obtain d1 d0 where d1: "d1 < 128" "c1 = word_of_nat d1 OR 0x80" "unat (c1 AND 0x7F) = d1"
      and d0: "d0 < 128" "c0 = word_of_nat d0" "unat (c0 AND 0x7F) = d0"
      by (metis byte_low byte_high)
    have "c1 \<noteq> 0x80" using mini two by simp
    with d1 have nz: "d1 \<noteq> 0" by (auto simp: cont_padding)
    have v: "base128Value [c1, c0] = d1 * 128 + d0" by (simp add: base128Value_def d1(3) d0(3))
    from decodeTagNumber_long2 [OF f d1(1) nz d0(1), of x r]
    have "decodeTagNumber (ident # c1 # c0 # x # r) = Inr (d1 * 128 + d0, 3)"
      by (simp only: d1(2) [symmetric] d0(2) [symmetric])
    then show ?thesis by (simp add: two v)
  next
    case three
    with cont have "c2 AND 0x80 \<noteq> 0" "c1 AND 0x80 \<noteq> 0" "c0 AND 0x80 = 0"
      by (simp_all add: continuationOctets_Cons)
    then obtain d2 d1 d0 where d2: "d2 < 128" "c2 = word_of_nat d2 OR 0x80" "unat (c2 AND 0x7F) = d2"
      and d1: "d1 < 128" "c1 = word_of_nat d1 OR 0x80" "unat (c1 AND 0x7F) = d1"
      and d0: "d0 < 128" "c0 = word_of_nat d0" "unat (c0 AND 0x7F) = d0"
      by (metis byte_low byte_high)
    have "c2 \<noteq> 0x80" using mini three by simp
    with d2 have nz: "d2 \<noteq> 0" by (auto simp: cont_padding)
    have v: "base128Value [c2, c1, c0] = (d2 * 128 + d1) * 128 + d0"
      by (simp add: base128Value_def d2(3) d1(3) d0(3))
    from decodeTagNumber_long3 [OF f d2(1) nz d1(1) d0(1), of x r]
    have "decodeTagNumber (ident # c2 # c1 # c0 # x # r) = Inr ((d2 * 128 + d1) * 128 + d0, 4)"
      by (simp only: d2(2) [symmetric] d1(2) [symmetric] d0(2) [symmetric])
    then show ?thesis by (simp only: three v) simp
  qed
qed

lemma fromBytes_tag_error:
  "decodeTagNumber bytes = Inl e \<Longrightarrow> \<exists>e'. fromBytes this bytes = Inl e'"
  by (subst fromBytes.simps) simp

lemma fromBytes_tag_error_same:
  "\<not> length bytes < 2 \<Longrightarrow> recursionCount this + 1 \<le> nestingRecursionLimit
     \<Longrightarrow> decodeTagNumber bytes = Inl e \<Longrightarrow> fromBytes this bytes = Inl e"
  by (subst fromBytes.simps) simp

lemma decodeTagNumber_shortI:
  assumes "31 \<le> unat (js_and (js_index bytes 0) 0x1F)"
    and "js_index bytes 1 \<noteq> Some 0x80"
    and "tagNumberEnd bytes (if length bytes - 1 \<ge> 4 then 4 else length bytes - 1) 1 = c"
    and "js_and (js_index bytes (c - 1)) 0x80 = 0"
    and "foldl (\<lambda>tagNumber i. push_bit 7 tagNumber OR unat (js_and (js_index bytes i) 0x7F))
           0 [1..<c] = n"
    and "n \<le> 31"
  shows "decodeTagNumber bytes = Inl ASN1Error"
  using assms by (simp add: decodeTagNumber_def Let_def)

lemma decodeTagNumber_unterminatedI:
  assumes "31 \<le> unat (js_and (js_index bytes 0) 0x1F)"
    and "js_index bytes 1 \<noteq> Some 0x80"
    and "tagNumberEnd bytes (if length bytes - 1 \<ge> 4 then 4 else length bytes - 1) 1 = c"
    and "js_and (js_index bytes (c - 1)) 0x80 \<noteq> 0"
  shows "decodeTagNumber bytes =
           Inl (if (if length bytes - 1 \<ge> 4 then 4 else length bytes - 1) = length bytes - 1
                then ASN1TruncationError else ASN1OverflowError)"
  using assms by (simp add: decodeTagNumber_def Let_def)

lemma decodeTagNumber_small_rejected:
  assumes flag: "ident AND 0x1F = 0x1F" and cont: "continuationOctets cs"
    and small: "base128Value cs \<le> 31"
  shows "\<exists>e. decodeTagNumber (ident # cs @ rest) = Inl e"
proof -
  note f = flag_value [OF flag]
  from cont obtain c cs' where cs: "cs = c # cs'"
    by (cases cs) (auto simp: continuationOctets_def)
  show ?thesis
  proof (cases "cs' = []")
    case True
    with cont cs have low: "c AND 0x80 = 0" by (simp add: continuationOctets_Cons)
    then obtain d where d: "d < 128" "c = word_of_nat d" "unat (c AND 0x7F) = d"
      by (rule byte_low)
    have v: "d \<le> 31" using small by (simp add: base128Value_def cs True d(3))
    let ?bytes = "ident # c # rest"
    let ?limit = "if length ?bytes - 1 \<ge> 4 then 4 else length ?bytes - 1"
    have nopad: "js_index ?bytes 1 \<noteq> Some 0x80"
      using d by (simp add: js_index_Cons byte_eq_iff byte_of_nat_unat)
    have i0: "31 \<le> unat (js_and (js_index ?bytes 0) 0x1F)"
      using f by (simp add: js_index_Cons js_and_def)
    have "\<exists>e. decodeTagNumber ?bytes = Inl e"
    proof (cases rest)
      case Nil
      have e: "tagNumberEnd ?bytes ?limit 1 = 1"
        by (rule tagNumberEnd_limit) (simp add: Nil)
      show ?thesis
      proof (cases "js_and (js_index ?bytes (1 - 1)) 0x80 = 0")
        case True
        have "decodeTagNumber ?bytes = Inl ASN1Error"
          by (rule decodeTagNumber_shortI [OF i0 nopad e True refl]) simp
        then show ?thesis by blast
      next
        case False
        from decodeTagNumber_unterminatedI [OF i0 nopad e False] show ?thesis by blast
      qed
    next
      case (Cons x r)
      have lim: "1 < ?limit" by (simp add: Cons)
      have stop: "js_and (js_index ?bytes 1) 0x80 = 0"
        by (simp add: js_index_Cons js_and_def low)
      have e: "tagNumberEnd ?bytes ?limit 1 = 2"
        using tagNumberEnd_stop [OF lim stop] by simp
      have stop': "js_and (js_index ?bytes (2 - 1)) 0x80 = 0" using stop by simp
      have fold: "foldl (\<lambda>tagNumber i. push_bit 7 tagNumber OR unat (js_and (js_index ?bytes i) 0x7F))
                    0 [1..<2] = d"
        by (simp add: upt_1_2 js_index_Cons js_and_def d(3))
      have "decodeTagNumber ?bytes = Inl ASN1Error"
        by (rule decodeTagNumber_shortI [OF i0 nopad e stop' fold v])
      then show ?thesis by blast
    qed
    then show ?thesis by (simp add: cs True)
  next
    case False
    with cont cs have high: "c AND 0x80 \<noteq> 0" by (simp add: continuationOctets_Cons)
    have "c = 0x80"
    proof (rule ccontr)
      assume "c \<noteq> 0x80"
      with high have "1 \<le> unat (c AND 0x7F)" by (rule leading_digit)
      then have d: "1 * 128 ^ length cs' \<le> unat (c AND 0x7F) * 128 ^ length cs'"
        by (rule mult_le_mono1)
      have "(128::nat) = 128 ^ 1" by simp
      also have "\<dots> \<le> 128 ^ length cs'"
        using False by (intro power_increasing) (simp_all add: Suc_le_eq)
      also have "\<dots> \<le> unat (c AND 0x7F) * 128 ^ length cs'" using d by simp
      also have "\<dots> \<le> base128Value cs" unfolding cs by (rule base128Value_Cons_lower)
      finally show False using small by simp
    qed
    then have "decodeTagNumber (ident # cs @ rest) = Inl ASN1PaddingError"
      using f by (simp add: decodeTagNumber_def Let_def cs js_index_Cons js_and_def)
    then show ?thesis by blast
  qed
qed

lemma decodeTagNumber_large:
  assumes flag: "ident AND 0x1F = 0x1F" and cont: "continuationOctets cs"
    and mini: "hd cs \<noteq> 0x80" and big: "2097152 \<le> base128Value cs"
  shows "decodeTagNumber (ident # cs @ rest)
           = Inl (if length cs = 4 \<and> rest = [] then ASN1TruncationError else ASN1OverflowError)"
proof -
  note f = flag_value [OF flag]
  have "\<not> length cs \<le> 3"
  proof
    assume "length cs \<le> 3"
    then have "(128::nat) ^ length cs \<le> 128 ^ 3" by (intro power_increasing) simp_all
    with base128Value_upper [of cs] big show False by simp
  qed
  then obtain c1 c2 c3 c4 cs' where cs: "cs = c1 # c2 # c3 # c4 # cs'"
    by (cases cs; cases "tl cs"; cases "tl (tl cs)"; cases "tl (tl (tl cs))") auto
  with cont have high: "c1 AND 0x80 \<noteq> 0" "c2 AND 0x80 \<noteq> 0" "c3 AND 0x80 \<noteq> 0"
    by (simp_all add: continuationOctets_Cons)
  let ?bytes = "ident # c1 # c2 # c3 # c4 # cs' @ rest"
  let ?limit = "if length ?bytes - 1 \<ge> 4 then 4 else length ?bytes - 1"
  have i0: "31 \<le> unat (js_and (js_index ?bytes 0) 0x1F)"
    using f by (simp add: js_index_Cons js_and_def)
  have nopad: "js_index ?bytes 1 \<noteq> Some 0x80"
    using mini by (simp add: js_index_Cons cs)
  have lim1: "1 < ?limit" and lim2: "1 + 1 < ?limit" and lim3: "1 + 1 + 1 < ?limit"
    and lim4: "\<not> 1 + 1 + 1 + 1 < ?limit" by simp_all
  have go1: "js_and (js_index ?bytes 1) 0x80 \<noteq> 0"
    using high by (simp add: js_index_Cons js_and_def)
  have go2: "js_and (js_index ?bytes (1 + 1)) 0x80 \<noteq> 0"
    using high by (simp add: js_index_Cons js_and_def)
  have go3: "js_and (js_index ?bytes (1 + 1 + 1)) 0x80 \<noteq> 0"
    using high by (simp add: js_index_Cons js_and_def)
  have "tagNumberEnd ?bytes ?limit 1 = tagNumberEnd ?bytes ?limit (1 + 1)"
    by (rule tagNumberEnd_step [OF lim1 go1])
  also have "\<dots> = tagNumberEnd ?bytes ?limit (1 + 1 + 1)"
    by (rule tagNumberEnd_step [OF lim2 go2])
  also have "\<dots> = tagNumberEnd ?bytes ?limit (1 + 1 + 1 + 1)"
    by (rule tagNumberEnd_step [OF lim3 go3])
  also have "\<dots> = 1 + 1 + 1 + 1"
    by (rule tagNumberEnd_limit [OF lim4])
  finally have e: "tagNumberEnd ?bytes ?limit 1 = 4" by simp
  have last: "js_and (js_index ?bytes (4 - 1)) 0x80 \<noteq> 0"
    using high by (simp add: js_index_Cons js_and_def)
  have ends: "?limit = length ?bytes - 1 \<longleftrightarrow> length cs = 4 \<and> rest = []"
    by (auto simp: cs)
  from decodeTagNumber_unterminatedI [OF i0 nopad e last] show ?thesis
    by (simp only: ends) (simp add: cs)
qed

subsection \<open>The bitString getter on a constructed element\<close>

text \<open>
  For a constructed BIT STRING within the nesting limit whose value parses into the
  children \<open>substrings\<close>: the getter fails with the generic \<open>ASN1Error\<close> whenever a
  primitive child other than the last has a non-empty value with a non-zero first
  octet; the test of ber.ts 83-87 is not made on constructed children.  When no
  primitive child fails it, every child carries the outer tag class and number, and
  the getter of every child, one level deeper, returns, the result is the concatenation
  of what the children's getters return.
\<close>

lemma get_bitString_children:
  assumes "construction this = constructed"
      and "recursionCount this + 1 \<le> nestingRecursionLimit"
      and "get_sequence this = Inr substrings"
  shows "((\<exists>s \<in> set (butlast substrings).
              construction s = primitive \<and> val s \<noteq> [] \<and> hd (val s) \<noteq> 0)
            \<longrightarrow> get_bitString this = Inl ASN1Error)
       \<and> (\<forall>bss.
            (\<forall>s \<in> set (butlast substrings).
                 \<not> (construction s = primitive \<and> val s \<noteq> [] \<and> hd (val s) \<noteq> 0))
            \<and> (\<forall>s \<in> set substrings. tagClass s = tagClass this \<and> tagNumber s = tagNumber this)
            \<and> map (\<lambda>s. get_bitString (s\<lparr>recursionCount := recursionCount this + 1\<rparr>)) substrings
                = map Inr bss
            \<longrightarrow> get_bitString this = Inr (concat bss))"
proof -
  let ?check = "\<lambda>substring :: BERElement.
                  if construction substring = primitive
                     \<and> length (val substring) > 0
                     \<and> js_index (val substring) 0 \<noteq> Some 0x00
                  then Inl ASN1Error else Inr ()"
  let ?g = "\<lambda>substring :: BERElement.
              if tagClass substring \<noteq> tagClass this then Inl ASN1ConstructionError
              else if tagNumber substring \<noteq> tagNumber this then Inl ASN1ConstructionError
              else get_bitString (substring\<lparr>recursionCount := recursionCount this + 1\<rparr>)"
  have unf: "get_bitString this =
      (case forEach ?check (butlast substrings) of
         Inl e \<Rightarrow> Inl e
       | Inr _ \<Rightarrow> (case forEach ?g substrings of
                      Inl e \<Rightarrow> Inl e | Inr appendy \<Rightarrow> Inr (concat appendy)))"
    by (rule get_bitString_constructed [OF assms])
  have check: "?check s = (if construction s = primitive \<and> val s \<noteq> [] \<and> hd (val s) \<noteq> 0
                            then Inl ASN1Error else Inr ())" for s
    by (cases "val s") (simp_all add: js_index_def)
  have a: "get_bitString this = Inl ASN1Error"
    if "\<exists>s \<in> set (butlast substrings).
          construction s = primitive \<and> val s \<noteq> [] \<and> hd (val s) \<noteq> 0"
  proof -
    from that obtain s where s: "s \<in> set (butlast substrings)"
      and "construction s = primitive \<and> val s \<noteq> [] \<and> hd (val s) \<noteq> 0" by blast
    then have "?check s = Inl ASN1Error" by (subst check) simp
    with s obtain e' where e': "forEach ?check (butlast substrings) = Inl e'"
      using forEach_fails [of s "butlast substrings" ?check ASN1Error] by blast
    then have "\<exists>x \<in> set (butlast substrings). ?check x = Inl e'"
      by (rule forEach_error_source [of ?check "butlast substrings" e'])
    then obtain x where "?check x = Inl e'" by (elim bexE)
    then have "e' = ASN1Error" by (auto split: if_splits)
    with e' show ?thesis by (simp add: unf)
  qed
  have b: "get_bitString this = Inr (concat bss)"
    if "\<forall>s \<in> set (butlast substrings).
          \<not> (construction s = primitive \<and> val s \<noteq> [] \<and> hd (val s) \<noteq> 0)"
      and "\<forall>s \<in> set substrings. tagClass s = tagClass this \<and> tagNumber s = tagNumber this"
      and "map (\<lambda>s. get_bitString (s\<lparr>recursionCount := recursionCount this + 1\<rparr>)) substrings
             = map Inr bss"
    for bss
  proof -
    have "\<forall>x \<in> set (butlast substrings). \<exists>y. ?check x = Inr y"
      using that(1) by (subst check) auto
    then obtain us where us: "forEach ?check (butlast substrings) = Inr us"
      using forEach_succeeds [of "butlast substrings" ?check] by blast
    have "map ?g substrings
          = map (\<lambda>s. get_bitString (s\<lparr>recursionCount := recursionCount this + 1\<rparr>)) substrings"
      using that(2) by (intro map_cong) auto
    also note that(3)
    finally have "forEach ?g substrings = Inr bss"
      by (rule forEach_Inr_iff [THEN iffD2])
    with us show ?thesis by (simp add: unf)
  qed
  from a b show ?thesis by blast
qed

subsection \<open>Where the recursion error comes from\<close>






subsection \<open>Fragments\<close>

lemma CERElement_new_fragment:
  assumes "length fragment \<le> 1000"
  shows "CERElement_new tc c tn fragment
           = \<lparr>recursionCount = 0, tagClass = tc, construction = c, tagNumber = tn,
              val = fragment\<rparr>"
  using assms
  by (simp add: CERElement_new.simps cer_set_unfragmentedValue.simps BERElement_new_def)

lemma splitOctetsCanonically_Nil: "splitOctetsCanonically [] = []"
  by (simp add: splitOctetsCanonically.simps)

lemma splitOctetsCanonically_step:
  "v \<noteq> [] \<Longrightarrow>
     splitOctetsCanonically v = take 1000 v # splitOctetsCanonically (drop 1000 v)"
  by (subst splitOctetsCanonically.simps) simp

lemma splitOctetsCanonically_empty_iff: "splitOctetsCanonically v = [] \<longleftrightarrow> v = []"
  by (subst splitOctetsCanonically.simps) simp

lemma splitOctetsCanonically_concat: "concat (splitOctetsCanonically v) = v"
proof (induction v rule: splitOctetsCanonically.induct)
  case (1 v)
  show ?case
  proof (cases "v = []")
    case True
    then show ?thesis by (simp add: splitOctetsCanonically_Nil)
  next
    case False
    then show ?thesis
      using "1.IH" [OF False] by (simp add: splitOctetsCanonically_step)
  qed
qed

lemma splitOctetsCanonically_butlast:
  "list_all (\<lambda>fragment. length fragment = 1000) (butlast (splitOctetsCanonically v))"
proof (induction v rule: splitOctetsCanonically.induct)
  case (1 v)
  show ?case
  proof (cases "v = []")
    case True
    then show ?thesis by (simp add: splitOctetsCanonically_Nil)
  next
    case False
    show ?thesis
    proof (cases "drop 1000 v = []")
      case True
      then show ?thesis
        using False by (simp add: splitOctetsCanonically_step splitOctetsCanonically_Nil)
    next
      case rest: False
      then have "1000 < length v" by simp
      then show ?thesis
        using "1.IH" [OF False] False rest
        by (simp add: splitOctetsCanonically_step [OF False] splitOctetsCanonically_empty_iff)
    qed
  qed
qed

lemma splitOctetsCanonically_last:
  "v \<noteq> [] \<Longrightarrow>
     0 < length (last (splitOctetsCanonically v))
       \<and> length (last (splitOctetsCanonically v)) \<le> 1000"
proof (induction v rule: splitOctetsCanonically.induct)
  case (1 v)
  show ?case
  proof (cases "drop 1000 v = []")
    case True
    then show ?thesis
      using "1.prems" by (simp add: splitOctetsCanonically_step splitOctetsCanonically_Nil)
  next
    case rest: False
    then show ?thesis
      using "1.IH" [OF "1.prems" rest] "1.prems"
      by (simp add: splitOctetsCanonically_step [OF "1.prems"] splitOctetsCanonically_empty_iff)
  qed
qed

lemma splitOctetsCanonically_count:
  "length (splitOctetsCanonically v) = (length v + 999) div 1000"
proof (induction v rule: splitOctetsCanonically.induct)
  case (1 v)
  show ?case
  proof (cases "v = []")
    case True
    then show ?thesis by (simp add: splitOctetsCanonically_Nil)
  next
    case False
    then have pos: "0 < length v" by simp
    have "Suc ((length v - 1000 + 999) div 1000) = (length v + 999) div 1000"
    proof (cases "length v \<le> 1000")
      case True
      then have "(length v - 1000 + 999) div 1000 = 0" by simp
      moreover have "(length v + 999) div 1000 = 1"
      proof -
        obtain k where k: "length v = Suc k" "k < 1000"
          using pos True by (cases "length v") auto
        have "length v + 999 = k + 1 * 1000" using k by simp
        then have "(length v + 999) div 1000 = k div 1000 + 1"
          by simp
        then show ?thesis using k by simp
      qed
      ultimately show ?thesis by simp
    next
      case False
      then obtain m where m: "length v = m + 1000"
        by (metis add.commute le_add_diff_inverse nat_le_linear)
      show ?thesis by (simp add: m)
    qed
    then show ?thesis
      using "1.IH" [OF False] by (simp add: splitOctetsCanonically_step [OF False])
  qed
qed

lemma splitOctetsCanonically_2500:
  assumes "length v = 2500"
  shows "map length (splitOctetsCanonically v) = [1000, 1000, 500]"
proof -
  have v: "v \<noteq> []" using assms by auto
  have d1: "drop 1000 v \<noteq> []" using assms by auto
  have d2: "drop 2000 v \<noteq> []" using assms by auto
  have d3: "drop 3000 v = []" using assms by auto
  have s3: "splitOctetsCanonically (drop 2000 v) = [drop 2000 v]"
    by (simp add: splitOctetsCanonically_step [OF d2] d3 splitOctetsCanonically_Nil assms)
  have s2: "splitOctetsCanonically (drop 1000 v) = [take 1000 (drop 1000 v), drop 2000 v]"
    by (simp add: splitOctetsCanonically_step [OF d1] s3)
  show ?thesis
    by (simp add: splitOctetsCanonically_step [OF v] s2 assms)
qed

section \<open>Properties\<close>

text \<open>
  C6.  The BER BOOLEAN codec: the setter stores exactly one octet, \<open>0xFF\<close> for true and
  \<open>0x00\<close> for false, so that a universal primitive element with tag number 1 set to true
  is written as \<open>01 01 FF\<close>; the getter fails with \<open>ASN1ConstructionError\<close> on a
  constructed element, with \<open>ASN1SizeError\<close> on a primitive element whose value is not
  exactly one octet, and otherwise returns false for the octet \<open>0x00\<close> and true for
  every other octet.
\<close>

theorem C6_boolean_codec:
  "val (set_boolean e True) = [0xFF]
   \<and> val (set_boolean e False) = [0x00]
   \<and> toBytes definite (set_boolean (BERElement_new universal primitive 1) True) = [0x01, 0x01, 0xFF]
   \<and> (construction e = constructed \<longrightarrow> get_boolean e = Inl ASN1ConstructionError)
   \<and> (construction e = primitive \<and> length (val e) \<noteq> 1 \<longrightarrow> get_boolean e = Inl ASN1SizeError)
   \<and> (construction e = primitive \<and> val e = [b] \<longrightarrow> get_boolean e = Inr (b \<noteq> 0))"
  by (simp add: set_boolean_def get_boolean_def toBytes_def tagBytes_def lengthOctets_def
        definiteLengthOctets_def BERElement_new_def js_index_def)

theorem C6_boolean_codec_witness:
  "get_boolean ((BERElement_new universal constructed 1)\<lparr>val := [0xFF]\<rparr>) = Inl ASN1ConstructionError
   \<and> get_boolean ((BERElement_new universal primitive 1)\<lparr>val := [0xFF, 0x00]\<rparr>) = Inl ASN1SizeError
   \<and> get_boolean (BERElement_new universal primitive 1) = Inl ASN1SizeError
   \<and> get_boolean ((BERElement_new universal primitive 1)\<lparr>val := [0x2A]\<rparr>) = Inr True
   \<and> get_boolean ((BERElement_new universal primitive 1)\<lparr>val := [0x00]\<rparr>) = Inr False
   \<and> get_boolean (set_boolean (BERElement_new universal primitive 1) True) = Inr True"
  using C6_boolean_codec [of "(BERElement_new universal constructed 1)\<lparr>val := [0xFF]\<rparr>" 0]
    C6_boolean_codec [of "(BERElement_new universal primitive 1)\<lparr>val := [0xFF, 0x00]\<rparr>" 0]
    C6_boolean_codec [of "BERElement_new universal primitive 1" 0]
    C6_boolean_codec [of "(BERElement_new universal primitive 1)\<lparr>val := [0x2A]\<rparr>" "0x2A"]
    C6_boolean_codec [of "(BERElement_new universal primitive 1)\<lparr>val := [0x00]\<rparr>" "0x00"]
    C6_boolean_codec [of "set_boolean (BERElement_new universal primitive 1) True" "0xFF"]
  by (simp add: BERElement_new_def set_boolean_def)

text \<open>
  C10.  The primitive setters assign the value field only: tag class, tag number,
  construction (and the recursion counter) are what they were.  So on a constructed
  element, storing a boolean and reading it back fails with \<open>ASN1ConstructionError\<close>
  instead of returning the value just stored.
\<close>

theorem C10_setters_frame:
  "tagClass (set_boolean e v) = tagClass e
   \<and> tagNumber (set_boolean e v) = tagNumber e
   \<and> construction (set_boolean e v) = construction e
   \<and> recursionCount (set_boolean e v) = recursionCount e
   \<and> tagClass (set_octetString e bs) = tagClass e
   \<and> tagNumber (set_octetString e bs) = tagNumber e
   \<and> construction (set_octetString e bs) = construction e
   \<and> recursionCount (set_octetString e bs) = recursionCount e
   \<and> (construction e = constructed \<longrightarrow>
        get_boolean (set_boolean e v) = Inl ASN1ConstructionError)"
  by (simp add: set_boolean_def set_octetString_def get_boolean_def)

theorem C10_setters_frame_witness:
  "get_boolean (set_boolean (BERElement_new universal constructed 16) True) = Inl ASN1ConstructionError
   \<and> construction (set_boolean (BERElement_new universal constructed 16) True) = constructed"
  using C10_setters_frame [of "BERElement_new universal constructed 16" True "[]"]
  by (simp add: BERElement_new_def)

text \<open>
  C3.  The claim: under the definite preference the length is written in short form
  whenever the value has at most 127 octets, and in minimum-width long form otherwise.
  The code at the inputs where it departs from this: a value of 127 octets gets the long
  form \<open>81 7F\<close> (the test of ber.ts 799 is \<^verbatim>\<open>< 127\<close>), and a value of 65536 octets gets
  \<open>82 00 00\<close>, which is not the length at all: the loop of ber.ts 808-810 counts every
  zero octet among the first three, not only the leading ones, so the octet \<open>01\<close> is cut
  off with the padding.
\<close>

theorem C3_length_octets_at_127_and_65536:
  "definiteLengthOctets 127 = [0x81, 0x7F]
   \<and> toBytes definite ((BERElement_new universal primitive 4)\<lparr>val := replicate 127 0xAB\<rparr>)
       = [0x04, 0x81, 0x7F] @ replicate 127 0xAB
   \<and> definiteLengthOctets 126 = [0x7E]
   \<and> definiteLengthOctets 65536 = [0x82, 0x00, 0x00]
   \<and> toBytes definite ((BERElement_new universal primitive 4)\<lparr>val := replicate 65536 0xAB\<rparr>)
       = [0x04, 0x82, 0x00, 0x00] @ replicate 65536 0xAB"
  by (simp add: toBytes_def tagBytes_def lengthOctets_def definiteLengthOctets_def
        drop_bit_eq_div BERElement_new_def)

text \<open>
  C4.  The claim: an indefinite-length element is scanned child by child up to the
  end-of-content child, the value is what lies before that child, and an input without
  such a child fails with \<open>ASN1TruncationError\<close>.  The code at the inputs where it
  departs from this.  In \<open>30 80 04 02 00 00\<close> the only child is the OCTET STRING
  \<open>04 02 00 00\<close>; no end-of-content child follows, but the test of ber.ts 752 only
  looks at the last two octets of the buffer, finds them zero, and the call returns an
  element whose value \<open>04 02\<close> is the child cut in half.  In \<open>30 80 00 81 00 AA\<close> the
  end-of-content child is written with a long-form length and takes three octets; the
  value is cut two octets before its end (ber.ts 757) and so holds the first octet of
  the end-of-content child.
\<close>

theorem C4_indefinite_without_end_of_content:
  "fromBytes (BERElement_new universal primitive 0) [0x30, 0x80, 0x04, 0x02, 0x00, 0x00]
     = Inr (\<lparr>recursionCount = 0, tagClass = universal, construction = constructed,
              tagNumber = 16, val = [0x04, 0x02]\<rparr>, 6)
   \<and> fromBytes ((BERElement_new universal primitive 0)\<lparr>recursionCount := 1\<rparr>) [0x04, 0x02, 0x00, 0x00]
     = Inr (\<lparr>recursionCount = 1, tagClass = universal, construction = primitive,
              tagNumber = 4, val = [0x00, 0x00]\<rparr>, 4)
   \<and> fromBytes (BERElement_new universal primitive 0) [0x30, 0x80, 0x00, 0x81, 0x00, 0xAA]
     = Inr (\<lparr>recursionCount = 0, tagClass = universal, construction = constructed,
              tagNumber = 16, val = [0x00]\<rparr>, 5)
   \<and> fromBytes (BERElement_new universal primitive 0) [0x30, 0x80, 0x04, 0x02, 0x01, 0x00]
     = Inl ASN1TruncationError
   \<and> fromBytes (BERElement_new universal primitive 0) [0x30, 0x80, 0x04, 0x02, 0x01, 0x00, 0x00, 0x00]
     = Inr (\<lparr>recursionCount = 0, tagClass = universal, construction = constructed,
              tagNumber = 16, val = [0x04, 0x02, 0x01, 0x00]\<rparr>, 8)"
  by code_simp

text \<open>
  C9 (as amended).  For a constructed element within the nesting limit whose value
  parses into the children \<open>substrings\<close>: the accessor fails whenever some child's tag
  class or tag number differs from the outer element's; the error is
  \<open>ASN1ConstructionError\<close> when all children before the first differing one carry the
  outer tag and deconstruct successfully (the children are handled in order, and an
  earlier child's own error comes first); and when every child carries the outer tag and
  deconstructs, one level deeper, to \<open>ds\<close>, the result is the concatenation of \<open>ds\<close>.
  The octets \<open>24 11 04 04 01 02 03 04 24 05 04 03 05 06 07 04 02 08 09\<close> decode to
  \<open>01 02 03 04 05 06 07 08 09\<close>.
\<close>

theorem C9_deconstruct_constructed:
  assumes "construction this = constructed"
      and "recursionCount this + 1 \<le> nestingRecursionLimit"
      and "get_sequence this = Inr substrings"
  shows "((\<exists>s \<in> set substrings. tagClass s \<noteq> tagClass this \<or> tagNumber s \<noteq> tagNumber this)
            \<longrightarrow> (\<exists>e. get_octetString this = Inl e))
       \<and> (\<forall>pre s post.
            substrings = pre @ s # post
            \<and> (\<forall>p \<in> set pre. tagClass p = tagClass this \<and> tagNumber p = tagNumber this
                   \<and> (\<exists>d. deconstruct (p\<lparr>recursionCount := recursionCount this + 1\<rparr>) = Inr d))
            \<and> (tagClass s \<noteq> tagClass this \<or> tagNumber s \<noteq> tagNumber this)
            \<longrightarrow> get_octetString this = Inl ASN1ConstructionError)
       \<and> (\<forall>ds.
            (\<forall>s \<in> set substrings. tagClass s = tagClass this \<and> tagNumber s = tagNumber this)
            \<and> map (\<lambda>s. deconstruct (s\<lparr>recursionCount := recursionCount this + 1\<rparr>)) substrings
                = map Inr ds
            \<longrightarrow> get_octetString this = Inr (concat ds))"
proof -
  let ?f = "\<lambda>substring.
              if tagClass substring \<noteq> tagClass this then Inl ASN1ConstructionError
              else if tagNumber substring \<noteq> tagNumber this then Inl ASN1ConstructionError
              else deconstruct (substring\<lparr>recursionCount := recursionCount this + 1\<rparr>)"
  have unf: "get_octetString this =
      (case forEach ?f substrings of Inl e \<Rightarrow> Inl e | Inr appendy \<Rightarrow> Inr (concat appendy))"
    unfolding get_octetString_def by (rule deconstruct_constructed [OF assms])
  have a: "\<exists>e. get_octetString this = Inl e"
    if "\<exists>s \<in> set substrings. tagClass s \<noteq> tagClass this \<or> tagNumber s \<noteq> tagNumber this"
  proof -
    from that obtain s where s: "s \<in> set substrings"
      and "tagClass s \<noteq> tagClass this \<or> tagNumber s \<noteq> tagNumber this" by blast
    then have "?f s = Inl ASN1ConstructionError" by auto
    with s obtain e' where "forEach ?f substrings = Inl e'"
      using forEach_fails [of s substrings ?f ASN1ConstructionError] by blast
    then show ?thesis by (simp add: unf)
  qed
  have b: "get_octetString this = Inl ASN1ConstructionError"
    if "substrings = pre @ s # post"
      and "\<forall>p \<in> set pre. tagClass p = tagClass this \<and> tagNumber p = tagNumber this
             \<and> (\<exists>d. deconstruct (p\<lparr>recursionCount := recursionCount this + 1\<rparr>) = Inr d)"
      and "tagClass s \<noteq> tagClass this \<or> tagNumber s \<noteq> tagNumber this"
    for pre s post
  proof -
    have 1: "\<forall>p \<in> set pre. \<exists>y. ?f p = Inr y" using that(2) by auto
    have 2: "?f s = Inl ASN1ConstructionError" using that(3) by auto
    have "forEach ?f (pre @ s # post) = Inl ASN1ConstructionError"
      using forEach_first_error [of pre ?f s ASN1ConstructionError post] 1 2 by blast
    then show ?thesis by (simp add: unf that(1))
  qed
  have c: "get_octetString this = Inr (concat ds)"
    if "\<forall>s \<in> set substrings. tagClass s = tagClass this \<and> tagNumber s = tagNumber this"
      and "map (\<lambda>s. deconstruct (s\<lparr>recursionCount := recursionCount this + 1\<rparr>)) substrings
             = map Inr ds"
    for ds
  proof -
    have "map ?f substrings = map (\<lambda>s. deconstruct (s\<lparr>recursionCount := recursionCount this + 1\<rparr>)) substrings"
      using that(1) by (intro map_cong) auto
    also note that(2)
    finally have "forEach ?f substrings = Inr ds"
      by (rule forEach_Inr_iff [THEN iffD2])
    then show ?thesis by (simp add: unf)
  qed
  from a b c show ?thesis by blast
qed

theorem C9_deconstruct_constructed_witness:
  "fromBytes (BERElement_new universal primitive 0)
      [0x24, 0x11, 0x04, 0x04, 0x01, 0x02, 0x03, 0x04, 0x24, 0x05, 0x04, 0x03, 0x05, 0x06, 0x07,
       0x04, 0x02, 0x08, 0x09] = Inr (octetStringExample, 19)
   \<and> get_octetString octetStringExample = Inr [0x01, 0x02, 0x03, 0x04, 0x05, 0x06, 0x07, 0x08, 0x09]
   \<and> get_octetString mismatchExample = Inl ASN1ConstructionError"
proof -
  let ?c1 = "\<lparr>recursionCount = 0, tagClass = universal, construction = primitive, tagNumber = 4,
              val = [0x01, 0x02, 0x03, 0x04]\<rparr>"
  let ?c2 = "\<lparr>recursionCount = 0, tagClass = universal, construction = constructed, tagNumber = 4,
              val = [0x04, 0x03, 0x05, 0x06, 0x07]\<rparr>"
  let ?c3 = "\<lparr>recursionCount = 0, tagClass = universal, construction = primitive, tagNumber = 4,
              val = [0x08, 0x09]\<rparr>"
  have parsed: "fromBytes (BERElement_new universal primitive 0)
      [0x24, 0x11, 0x04, 0x04, 0x01, 0x02, 0x03, 0x04, 0x24, 0x05, 0x04, 0x03, 0x05, 0x06, 0x07,
       0x04, 0x02, 0x08, 0x09] = Inr (octetStringExample, 19)"
    by code_simp
  have h1: "construction octetStringExample = constructed"
    by (simp add: octetStringExample_def)
  have h2: "recursionCount octetStringExample + 1 \<le> nestingRecursionLimit"
    by (simp add: octetStringExample_def nestingRecursionLimit_def)
  have h3: "get_sequence octetStringExample = Inr [?c1, ?c2, ?c3]"
    by code_simp
  have tags: "\<forall>s \<in> set [?c1, ?c2, ?c3].
      tagClass s = tagClass octetStringExample \<and> tagNumber s = tagNumber octetStringExample"
    by (simp add: octetStringExample_def)
  have parts: "map (\<lambda>s. deconstruct (s\<lparr>recursionCount := recursionCount octetStringExample + 1\<rparr>))
                 [?c1, ?c2, ?c3]
               = map Inr [[0x01, 0x02, 0x03, 0x04], [0x05, 0x06, 0x07], [0x08, 0x09]]"
    by code_simp
  have whole: "get_octetString octetStringExample
      = Inr (concat [[0x01, 0x02, 0x03, 0x04], [0x05, 0x06, 0x07], [0x08, 0x09]])"
    using C9_deconstruct_constructed [OF h1 h2 h3] tags parts by blast
  let ?m1 = "\<lparr>recursionCount = 0, tagClass = universal, construction = primitive, tagNumber = 4,
              val = [0x01, 0x02]\<rparr>"
  let ?m2 = "\<lparr>recursionCount = 0, tagClass = universal, construction = primitive, tagNumber = 5,
              val = []\<rparr>"
  have m1: "construction mismatchExample = constructed"
    by (simp add: mismatchExample_def)
  have m2: "recursionCount mismatchExample + 1 \<le> nestingRecursionLimit"
    by (simp add: mismatchExample_def nestingRecursionLimit_def)
  have m3: "get_sequence mismatchExample = Inr [?m1, ?m2]"
    by code_simp
  have m4: "[?m1, ?m2] = [?m1] @ ?m2 # []" by simp
  have m5: "\<forall>p \<in> set [?m1]. tagClass p = tagClass mismatchExample
      \<and> tagNumber p = tagNumber mismatchExample
      \<and> (\<exists>d. deconstruct (p\<lparr>recursionCount := recursionCount mismatchExample + 1\<rparr>) = Inr d)"
    by (simp add: mismatchExample_def deconstruct.simps)
  have m6: "tagClass ?m2 \<noteq> tagClass mismatchExample \<or> tagNumber ?m2 \<noteq> tagNumber mismatchExample"
    by (simp add: mismatchExample_def)
  have mismatch: "get_octetString mismatchExample = Inl ASN1ConstructionError"
    using C9_deconstruct_constructed [OF m1 m2 m3] m4 m5 m6 by blast
  from parsed whole mismatch show ?thesis by simp
qed

text \<open>
  The claim as stated fails on \<open>24 06 24 02 04 05 05 00\<close>: the second child is a NULL,
  so a child's tag number differs from the outer one, but the first child's contents
  \<open>04 05\<close> are truncated and its \<open>ASN1TruncationError\<close> is what the accessor throws.
\<close>

theorem C9_error_of_earlier_child_counterexample:
  "get_sequence truncatedChildExample
     = Inr [\<lparr>recursionCount = 0, tagClass = universal, construction = constructed, tagNumber = 4,
              val = [0x04, 0x05]\<rparr>,
            \<lparr>recursionCount = 0, tagClass = universal, construction = primitive, tagNumber = 5,
              val = []\<rparr>]
   \<and> fromBytes (BERElement_new universal primitive 0) [0x24, 0x06, 0x24, 0x02, 0x04, 0x05, 0x05, 0x00]
     = Inr (truncatedChildExample, 8)
   \<and> tagNumber truncatedChildExample = 4
   \<and> get_octetString truncatedChildExample = Inl ASN1TruncationError
   \<and> get_octetString truncatedChildExample \<noteq> Inl ASN1ConstructionError"
  by code_simp


text \<open>
  C5.  The alignment test of the \<^verbatim>\<open>bitString\<close> getter misses constructed sub-elements.
  In \<open>23 0A 23 04 03 02 05 F0 03 02 00 0F\<close> the first of the two sub-elements is itself
  a constructed BIT STRING; it holds the three bits \<open>111\<close> with five unused bits and is
  not the last sub-element, yet the getter returns those three bits followed by the
  eight bits of the last sub-element.  The same fragment as a primitive sub-element
  (\<open>23 08 03 02 05 F0 03 02 00 0F\<close>) is rejected, and the constructed BIT STRING of the
  test suite, whose sub-elements before the last are aligned, gives its 19 bits.
\<close>

theorem C5_unused_bits_of_constructed_child:
  "fromBytes (BERElement_new universal primitive 0)
      [0x23, 0x0A, 0x23, 0x04, 0x03, 0x02, 0x05, 0xF0, 0x03, 0x02, 0x00, 0x0F]
     = Inr (nestedMisalignedExample, 12)
   \<and> get_sequence nestedMisalignedExample
     = Inr [\<lparr>recursionCount = 0, tagClass = universal, construction = constructed, tagNumber = 3,
              val = [0x03, 0x02, 0x05, 0xF0]\<rparr>,
            \<lparr>recursionCount = 0, tagClass = universal, construction = primitive, tagNumber = 3,
              val = [0x00, 0x0F]\<rparr>]
   \<and> get_bitString \<lparr>recursionCount = 1, tagClass = universal, construction = constructed,
                     tagNumber = 3, val = [0x03, 0x02, 0x05, 0xF0]\<rparr>
     = Inr [True, True, True]
   \<and> get_bitString nestedMisalignedExample
     = Inr [True, True, True, False, False, False, False, True, True, True, True]
   \<and> fromBytes (BERElement_new universal primitive 0)
      [0x23, 0x08, 0x03, 0x02, 0x05, 0xF0, 0x03, 0x02, 0x00, 0x0F]
     = Inr (misalignedExample, 10)
   \<and> get_bitString misalignedExample = Inl ASN1Error
   \<and> fromBytes (BERElement_new universal primitive 0)
      [0x23, 0x0E, 0x03, 0x02, 0x00, 0x0F, 0x23, 0x04, 0x03, 0x02, 0x00, 0x0F, 0x03, 0x02, 0x05, 0xF0]
     = Inr (bitStringExample, 16)
   \<and> get_bitString bitStringExample
     = Inr [False, False, False, False, True, True, True, True,
            False, False, False, False, True, True, True, True,
            True, True, True]"
  by code_simp


text \<open>
  C1 (as amended).  Let \<open>e\<close> be an element whose tag number is at most 30 or lies between
  32 and \<open>2^21 - 1\<close>, and let \<^verbatim>\<open>fromBytes\<close> be called on an element within the nesting
  limit (a fresh one in particular) with the octets of \<open>toBytes\<close> under the definite
  preference, followed by anything.  When the length of \<open>e\<close>'s value is below \<open>2^31\<close>
  and, written on four octets, has no zero octet after a non-zero one among the first
  three (every length below 65536 is such: below \<open>2^24\<close> the third octet must not be
  zero, from \<open>2^24\<close> neither the second nor the third), the call succeeds, reads exactly
  the octets \<open>toBytes\<close> wrote, and reproduces \<open>e\<close>'s tag class, construction, tag number
  and value.  When the length is \<open>2^31\<close> or more (below \<open>2^32\<close>, second and third octet
  not zero), the four length octets are read as a negative number and the call fails
  with \<open>ASN1OverflowError\<close>.  Tag numbers from \<open>2^21\<close> are written on four or more
  continuation octets, and \<^verbatim>\<open>fromBytes\<close> reads three at most.
\<close>

theorem C1_round_trip:
  assumes tn: "tagNumber e < 31 \<or> 32 \<le> tagNumber e \<and> tagNumber e < 2097152"
    and rc: "recursionCount this + 1 \<le> nestingRecursionLimit"
  shows "(length (val e) < 65536
            \<or> length (val e) < 16777216 \<and> length (val e) div 256 mod 256 \<noteq> 0
            \<or> length (val e) < 2147483648 \<and> length (val e) div 65536 mod 256 \<noteq> 0
                \<and> length (val e) div 256 mod 256 \<noteq> 0
          \<longrightarrow> fromBytes this (toBytes definite e @ rest)
                = Inr (this\<lparr>tagClass := tagClass e, construction := construction e,
                            tagNumber := tagNumber e, val := val e\<rparr>,
                       length (toBytes definite e)))
       \<and> (2147483648 \<le> length (val e) \<and> length (val e) < 4294967296
            \<and> length (val e) div 65536 mod 256 \<noteq> 0 \<and> length (val e) div 256 mod 256 \<noteq> 0
          \<longrightarrow> fromBytes this (toBytes definite e @ rest) = Inl ASN1OverflowError)"
proof -
  let ?L = "length (val e)"
  let ?bytes = "toBytes definite e @ rest"
  obtain x r where lo: "definiteLengthOctets ?L @ val e @ rest = x # r"
    by (cases "definiteLengthOctets ?L")
       (auto simp: definiteLengthOctets_def Let_def split: if_splits)
  have b: "?bytes = tagBytes e @ definiteLengthOctets ?L @ val e @ rest"
    by (simp add: toBytes_def lengthOctets_def)
  have b': "?bytes = tagBytes e @ x # r" by (simp add: b lo)
  have dt: "decodeTagNumber ?bytes = Inr (tagNumber e, length (tagBytes e))"
    unfolding b' by (rule tagBytes_decode(1) [OF tn])
  have tc: "decodeTagClass (?bytes ! 0) = tagClass e"
    unfolding b' by (rule tagBytes_decode(2) [OF tn])
  have con: "(if ?bytes ! 0 AND 0x20 \<noteq> 0 then constructed else primitive) = construction e"
    unfolding b' using tagBytes_decode(3) [OF tn, of x r] by (cases "construction e") auto
  have ne: "tagBytes e \<noteq> []" by (simp add: tagBytes_def Let_def)
  have total: "length (tagBytes e) + length (definiteLengthOctets ?L) + ?L
                 = length (toBytes definite e)"
    by (simp add: toBytes_def lengthOctets_def)
  let ?ok = "Inr (this\<lparr>tagClass := tagClass e, construction := construction e,
                        tagNumber := tagNumber e, val := val e\<rparr>,
                   length (toBytes definite e))"
  have low: "fromBytes this ?bytes = ?ok" if "?L < 65536"
    using fromBytes_definite [OF dt b ne rc that] by (simp only: tc con total)
  have high: "fromBytes this ?bytes = (if ?L < 2147483648 then ?ok else Inl ASN1OverflowError)"
    if "65536 \<le> ?L" "?L < 4294967296"
       "16777216 \<le> ?L \<longrightarrow> ?L div 65536 mod 256 \<noteq> 0" "?L div 256 mod 256 \<noteq> 0"
    using fromBytes_definite_long [OF dt b ne rc that] by (simp only: tc con total)
  have round: "fromBytes this ?bytes = ?ok"
    if ok: "?L < 65536
            \<or> ?L < 16777216 \<and> ?L div 256 mod 256 \<noteq> 0
            \<or> ?L < 2147483648 \<and> ?L div 65536 mod 256 \<noteq> 0 \<and> ?L div 256 mod 256 \<noteq> 0"
  proof (cases "?L < 65536")
    case True
    then show ?thesis by (rule low)
  next
    case False
    then have 1: "65536 \<le> ?L" by simp
    from ok False have 2: "?L < 2147483648" by auto
    then have 3: "?L < 4294967296" by simp
    from ok False have 4: "16777216 \<le> ?L \<longrightarrow> ?L div 65536 mod 256 \<noteq> 0" by auto
    from ok False have 5: "?L div 256 mod 256 \<noteq> 0" by auto
    from high [OF 1 3 4 5] 2 show ?thesis by simp
  qed
  have over: "fromBytes this ?bytes = Inl ASN1OverflowError"
    if big: "2147483648 \<le> ?L \<and> ?L < 4294967296
          \<and> ?L div 65536 mod 256 \<noteq> 0 \<and> ?L div 256 mod 256 \<noteq> 0"
  proof -
    from big have 1: "65536 \<le> ?L" by simp
    from big have 2: "\<not> ?L < 2147483648" by simp
    from big have 3: "?L < 4294967296" by simp
    from big have 4: "16777216 \<le> ?L \<longrightarrow> ?L div 65536 mod 256 \<noteq> 0" by simp
    from big have 5: "?L div 256 mod 256 \<noteq> 0" by simp
    from high [OF 1 3 4 5] 2 show ?thesis by simp
  qed
  from round over show ?thesis by blast
qed

theorem C1_round_trip_witness:
  "toBytes definite \<lparr>recursionCount = 0, tagClass = context_specific, construction = constructed,
                      tagNumber = 1000, val = [0x01, 0x02, 0x03]\<rparr>
     = [0xBF, 0x87, 0x68, 0x03, 0x01, 0x02, 0x03]
   \<and> fromBytes (BERElement_new universal primitive 0) [0xBF, 0x87, 0x68, 0x03, 0x01, 0x02, 0x03]
     = Inr (\<lparr>recursionCount = 0, tagClass = context_specific, construction = constructed,
              tagNumber = 1000, val = [0x01, 0x02, 0x03]\<rparr>, 7)
   \<and> toBytes definite \<lparr>recursionCount = 0, tagClass = universal, construction = primitive,
                        tagNumber = 4, val = replicate 65792 0x61\<rparr>
     = [0x04, 0x83, 0x01, 0x01, 0x00] @ replicate 65792 0x61
   \<and> fromBytes (BERElement_new universal primitive 0)
        ([0x04, 0x83, 0x01, 0x01, 0x00] @ replicate 65792 0x61)
     = Inr (\<lparr>recursionCount = 0, tagClass = universal, construction = primitive,
              tagNumber = 4, val = replicate 65792 0x61\<rparr>, 65797)
   \<and> toBytes definite \<lparr>recursionCount = 0, tagClass = universal, construction = primitive,
                        tagNumber = 4, val = replicate 2147549440 0x61\<rparr>
     = [0x04, 0x84, 0x80, 0x01, 0x01, 0x00] @ replicate 2147549440 0x61
   \<and> fromBytes (BERElement_new universal primitive 0)
        ([0x04, 0x84, 0x80, 0x01, 0x01, 0x00] @ replicate 2147549440 0x61)
     = Inl ASN1OverflowError"
proof -
  let ?e = "\<lparr>recursionCount = 0, tagClass = context_specific, construction = constructed,
             tagNumber = 1000, val = [0x01, 0x02, 0x03 :: byte]\<rparr>"
  let ?f = "\<lparr>recursionCount = 0, tagClass = universal, construction = primitive,
             tagNumber = 4, val = replicate 65792 (0x61 :: byte)\<rparr>"
  let ?g = "\<lparr>recursionCount = 0, tagClass = universal, construction = primitive,
             tagNumber = 4, val = replicate 2147549440 (0x61 :: byte)\<rparr>"
  let ?new = "BERElement_new universal primitive 0"
  have tb: "toBytes definite ?e = [0xBF, 0x87, 0x68, 0x03, 0x01, 0x02, 0x03]"
    by (simp add: toBytes_def tagBytes_def lengthOctets_def definiteLengthOctets_def
          encodeTagNumber_step encodeTagNumber_zero)
  have l3: "definiteLengthOctets 65792 = [0x83, 0x01, 0x01, 0x00]"
    by (simp add: definiteLengthOctets_three)
  have l4: "definiteLengthOctets 2147549440 = [0x84, 0x80, 0x01, 0x01, 0x00]"
    by (simp add: definiteLengthOctets_four)
  have tf: "toBytes definite ?f = [0x04, 0x83, 0x01, 0x01, 0x00] @ replicate 65792 0x61"
    by (simp add: toBytes_def tagBytes_def lengthOctets_def l3)
  have tg: "toBytes definite ?g = [0x04, 0x84, 0x80, 0x01, 0x01, 0x00] @ replicate 2147549440 0x61"
    by (simp add: toBytes_def tagBytes_def lengthOctets_def l4)
  have h1: "tagNumber ?e < 31 \<or> 32 \<le> tagNumber ?e \<and> tagNumber ?e < 2097152" by simp
  have h1f: "tagNumber ?f < 31 \<or> 32 \<le> tagNumber ?f \<and> tagNumber ?f < 2097152" by simp
  have h1g: "tagNumber ?g < 31 \<or> 32 \<le> tagNumber ?g \<and> tagNumber ?g < 2097152" by simp
  have h3: "recursionCount ?new + 1 \<le> nestingRecursionLimit"
    by (simp add: BERElement_new_def nestingRecursionLimit_def)
  have a: "fromBytes ?new [0xBF, 0x87, 0x68, 0x03, 0x01, 0x02, 0x03]
             = Inr (?e, 7)"
    using C1_round_trip [OF h1 h3, of "[]"] tb by (simp add: BERElement_new_def)
  have b: "fromBytes ?new ([0x04, 0x83, 0x01, 0x01, 0x00] @ replicate 65792 0x61)
             = Inr (?f, 65797)"
    using C1_round_trip [OF h1f h3, of "[]"] tf by (simp add: BERElement_new_def)
  have c: "fromBytes ?new ([0x04, 0x84, 0x80, 0x01, 0x01, 0x00] @ replicate 2147549440 0x61)
             = Inl ASN1OverflowError"
    using C1_round_trip [OF h1g h3, of "[]"] tg by simp
  from tb tf tg a b c show ?thesis by simp
qed

text \<open>
  The claim as stated fails for the tag number \<open>2^21\<close>, which fits in 32 bits:
  \<open>toBytes\<close> writes it on four continuation octets and \<^verbatim>\<open>fromBytes\<close> rejects them.
\<close>

theorem C1_tag_number_2097152_counterexample:
  "toBytes definite (BERElement_new universal primitive 2097152)
     = [0x1F, 0x81, 0x80, 0x80, 0x00, 0x00]
   \<and> fromBytes (BERElement_new universal primitive 0)
         (toBytes definite (BERElement_new universal primitive 2097152))
     = Inl ASN1OverflowError"
proof -
  have tb: "toBytes definite (BERElement_new universal primitive 2097152)
     = [0x1F, 0x81, 0x80, 0x80, 0x00, 0x00]"
    by (simp add: toBytes_def tagBytes_def lengthOctets_def definiteLengthOctets_def
          encodeTagNumber_step encodeTagNumber_zero BERElement_new_def)
  have "fromBytes (BERElement_new universal primitive 0) [0x1F, 0x81, 0x80, 0x80, 0x00, 0x00]
     = Inl ASN1OverflowError"
    by code_simp
  with tb show ?thesis by simp
qed

text \<open>
  C2 (as amended).  For every buffer \<open>ident # cs @ ...\<close> whose identifier octet has the
  long-form flag set and whose continuation octets are \<open>cs\<close>: \<^verbatim>\<open>fromBytes\<close> rejects the
  buffer when \<open>cs\<close> denotes a tag number of at most 30; when \<open>cs\<close> is the minimal encoding
  of a tag number between 32 and \<open>2^21 - 1\<close> (at most three octets) and at least one more
  octet follows, the tag number read is that number and the cursor stands after \<open>cs\<close>,
  so that with a short-form length octet (0 to 127) and as many value octets after it
  the call returns the element with that tag number; when \<open>cs\<close> is the minimal encoding
  of a tag number from \<open>2^21\<close> (four octets or more), the call fails, with
  \<open>ASN1TruncationError\<close> when the buffer ends with the fourth continuation octet and
  with \<open>ASN1OverflowError\<close> otherwise.
\<close>

theorem C2_long_form_tag_number:
  assumes flag: "ident AND 0x1F = 0x1F" and cont: "continuationOctets cs"
  shows "(base128Value cs \<le> 30 \<longrightarrow> (\<exists>err. fromBytes this (ident # cs @ rest) = Inl err))
       \<and> (hd cs \<noteq> 0x80 \<and> 32 \<le> base128Value cs \<and> base128Value cs < 2097152 \<longrightarrow>
            decodeTagNumber (ident # cs @ x # r) = Inr (base128Value cs, 1 + length cs))
       \<and> (hd cs \<noteq> 0x80 \<and> 32 \<le> base128Value cs \<and> base128Value cs < 2097152
            \<and> recursionCount this + 1 \<le> nestingRecursionLimit \<and> length v \<le> 127 \<longrightarrow>
            fromBytes this (ident # cs @ word_of_nat (length v) # v @ rest)
              = Inr (this\<lparr>tagClass := decodeTagClass ident,
                          construction := (if ident AND 0x20 \<noteq> 0 then constructed else primitive),
                          tagNumber := base128Value cs, val := v\<rparr>,
                     1 + length cs + 1 + length v))
       \<and> (hd cs \<noteq> 0x80 \<and> 2097152 \<le> base128Value cs
            \<and> recursionCount this + 1 \<le> nestingRecursionLimit \<longrightarrow>
            fromBytes this (ident # cs @ rest)
              = Inl (if length cs = 4 \<and> rest = [] then ASN1TruncationError
                     else ASN1OverflowError))"
proof (intro conjI impI)
  assume "base128Value cs \<le> 30"
  then have "base128Value cs \<le> 31" by simp
  from decodeTagNumber_small_rejected [OF flag cont this, of rest]
  obtain e where "decodeTagNumber (ident # cs @ rest) = Inl e" ..
  then show "\<exists>err. fromBytes this (ident # cs @ rest) = Inl err"
    by (rule fromBytes_tag_error)
next
  assume "hd cs \<noteq> 0x80 \<and> 32 \<le> base128Value cs \<and> base128Value cs < 2097152"
  then show "decodeTagNumber (ident # cs @ x # r) = Inr (base128Value cs, 1 + length cs)"
    using decodeTagNumber_minimal [OF flag cont] by blast
next
  assume a: "hd cs \<noteq> 0x80 \<and> 32 \<le> base128Value cs \<and> base128Value cs < 2097152
    \<and> recursionCount this + 1 \<le> nestingRecursionLimit \<and> length v \<le> 127"
  let ?bytes = "ident # cs @ word_of_nat (length v) # v @ rest"
  have dt: "decodeTagNumber ?bytes = Inr (base128Value cs, length (ident # cs))"
    using decodeTagNumber_minimal [OF flag cont, of "word_of_nat (length v)" "v @ rest"] a by simp
  have bytes: "?bytes = (ident # cs) @ word_of_nat (length v) # v @ rest"
    by simp
  have "fromBytes this ?bytes =
           Inr (this\<lparr>tagClass := decodeTagClass (?bytes ! 0),
                     construction := (if ?bytes ! 0 AND 0x20 \<noteq> 0 then constructed else primitive),
                     tagNumber := base128Value cs, val := v\<rparr>,
                length (ident # cs) + 1 + length v)"
    by (rule fromBytes_short_form [OF dt bytes]) (use a in simp_all)
  then show "fromBytes this ?bytes
      = Inr (this\<lparr>tagClass := decodeTagClass ident,
                  construction := (if ident AND 0x20 \<noteq> 0 then constructed else primitive),
                  tagNumber := base128Value cs, val := v\<rparr>,
             1 + length cs + 1 + length v)"
    by simp
next
  assume a: "hd cs \<noteq> 0x80 \<and> 2097152 \<le> base128Value cs
    \<and> recursionCount this + 1 \<le> nestingRecursionLimit"
  let ?err = "if length cs = 4 \<and> rest = [] then ASN1TruncationError else ASN1OverflowError"
  from cont have "cs \<noteq> []" by (simp add: continuationOctets_def)
  then have two: "\<not> length (ident # cs @ rest) < 2" by (cases cs) simp_all
  have "decodeTagNumber (ident # cs @ rest) = Inl ?err"
    using decodeTagNumber_large [OF flag cont] a by blast
  with two show "fromBytes this (ident # cs @ rest) = Inl ?err"
    using a by (intro fromBytes_tag_error_same) simp_all
qed

theorem C2_long_form_tag_number_witness:
  "(\<exists>err. fromBytes (BERElement_new universal primitive 0) [0x1F, 0x1E, 0x00] = Inl err)
   \<and> fromBytes (BERElement_new universal primitive 0) [0x1F, 0x20, 0x00]
       = Inr (\<lparr>recursionCount = 0, tagClass = universal, construction = primitive,
                tagNumber = 32, val = []\<rparr>, 3)
   \<and> fromBytes (BERElement_new universal primitive 0) [0x5F, 0xFF, 0xFF, 0x7F, 0x02, 0xAA, 0xBB]
       = Inr (\<lparr>recursionCount = 0, tagClass = application, construction = primitive,
                tagNumber = 2097151, val = [0xAA, 0xBB]\<rparr>, 7)
   \<and> fromBytes (BERElement_new universal primitive 0) ([0x1F, 0x20, 0x7F] @ replicate 127 0xAA)
       = Inr (\<lparr>recursionCount = 0, tagClass = universal, construction = primitive,
                tagNumber = 32, val = replicate 127 0xAA\<rparr>, 130)
   \<and> fromBytes (BERElement_new universal primitive 0) [0x1F, 0x81, 0x80, 0x80, 0x00, 0x00]
       = Inl ASN1OverflowError
   \<and> fromBytes (BERElement_new universal primitive 0) [0x1F, 0x81, 0x80, 0x80, 0x00]
       = Inl ASN1TruncationError"
proof -
  let ?new = "BERElement_new universal primitive 0"
  have rc: "recursionCount ?new + 1 \<le> nestingRecursionLimit"
    by (simp add: BERElement_new_def nestingRecursionLimit_def)
  have f1: "(0x1F :: byte) AND 0x1F = 0x1F" and f5: "(0x5F :: byte) AND 0x1F = 0x1F" by simp_all
  have c30: "continuationOctets [0x1E]" and v30: "base128Value [0x1E] = 30"
    by (simp_all add: continuationOctets_def base128Value_def)
  have c32: "continuationOctets [0x20]" and v32: "base128Value [0x20] = 32"
    by (simp_all add: continuationOctets_def base128Value_def)
  have cmax: "continuationOctets [0xFF, 0xFF, 0x7F]"
    and vmax: "base128Value [0xFF, 0xFF, 0x7F] = 2097151"
    by (simp_all add: continuationOctets_def base128Value_def)
  have cbig: "continuationOctets [0x81, 0x80, 0x80, 0x00]"
    and vbig: "base128Value [0x81, 0x80, 0x80, 0x00] = 2097152"
    by (simp_all add: continuationOctets_def base128Value_def)
  have a: "\<exists>err. fromBytes ?new [0x1F, 0x1E, 0x00] = Inl err"
    using C2_long_form_tag_number [OF f1 c30, where this = ?new and rest = "[0x00]"] v30 by simp
  have b: "fromBytes ?new [0x1F, 0x20, 0x00]
       = Inr (?new\<lparr>tagClass := decodeTagClass 0x1F,
                     construction := (if (0x1F :: byte) AND 0x20 \<noteq> 0 then constructed else primitive),
                     tagNumber := 32, val := []\<rparr>, 3)"
    using C2_long_form_tag_number [OF f1 c32, where this = ?new and v = "[]" and rest = "[]"] v32 rc
    by simp
  have c: "fromBytes ?new [0x5F, 0xFF, 0xFF, 0x7F, 0x02, 0xAA, 0xBB]
       = Inr (?new\<lparr>tagClass := decodeTagClass 0x5F,
                     construction := (if (0x5F :: byte) AND 0x20 \<noteq> 0 then constructed else primitive),
                     tagNumber := 2097151, val := [0xAA, 0xBB]\<rparr>, 7)"
    using C2_long_form_tag_number [OF f5 cmax, where this = ?new and v = "[0xAA, 0xBB]" and rest = "[]"]
      vmax rc by simp
  have c127: "fromBytes ?new ([0x1F, 0x20, 0x7F] @ replicate 127 0xAA)
       = Inr (?new\<lparr>tagClass := decodeTagClass 0x1F,
                     construction := (if (0x1F :: byte) AND 0x20 \<noteq> 0 then constructed else primitive),
                     tagNumber := 32, val := replicate 127 0xAA\<rparr>, 130)"
    using C2_long_form_tag_number [OF f1 c32, where this = ?new and v = "replicate 127 0xAA" and rest = "[]"]
      v32 rc by simp
  have d: "fromBytes ?new [0x1F, 0x81, 0x80, 0x80, 0x00, 0x00] = Inl ASN1OverflowError"
    using C2_long_form_tag_number [OF f1 cbig, where this = ?new and rest = "[0x00]"] vbig rc
    by simp
  have t: "fromBytes ?new [0x1F, 0x81, 0x80, 0x80, 0x00] = Inl ASN1TruncationError"
    using C2_long_form_tag_number [OF f1 cbig, where this = ?new and rest = "[]"] vbig rc
    by simp
  from a b c c127 d t show ?thesis
    by (simp add: decodeTagClass_def BERElement_new_def)
qed

text \<open>
  The claim as stated fails at the tag number \<open>2^21\<close>: its minimal encoding
  \<open>81 80 80 00\<close> is rejected although the number fits in 32 bits.
\<close>

theorem C2_four_continuation_octets_counterexample:
  "continuationOctets [0x81, 0x80, 0x80, 0x00]
   \<and> hd [0x81, 0x80, 0x80, 0x00 :: byte] \<noteq> 0x80
   \<and> base128Value [0x81, 0x80, 0x80, 0x00] = 2097152
   \<and> (2097152 :: nat) < 2 ^ 32
   \<and> fromBytes (BERElement_new universal primitive 0) [0x1F, 0x81, 0x80, 0x80, 0x00, 0x00]
       = Inl ASN1OverflowError"
proof -
  have "fromBytes (BERElement_new universal primitive 0) [0x1F, 0x81, 0x80, 0x80, 0x00, 0x00]
       = Inl ASN1OverflowError"
    by code_simp
  then show ?thesis
    by (simp add: continuationOctets_def base128Value_def)
qed






text \<open>
  C7.  The \<^verbatim>\<open>octetString\<close> setter of \<^verbatim>\<open>CERElement\<close> stores a value of at most 1000 octets
  as it is, in primitive form.  For a longer value it sets the construction to
  constructed and stores the encodings of primitive children that carry the element's
  tag class and tag number: \<open>\<lceil>n / 1000\<rceil>\<close> children for \<open>n\<close> octets, each but the last
  of exactly 1000 octets, the last holding the remaining 1 to 1000 octets, their values
  making up the input in order.  A value of 2500 octets gives a constructed element
  with three children, of 1000, 1000 and 500 octets.
\<close>

theorem C7_fragmenting_setter:
  "(let e = cer_set_octetString this v;
        children = map (\<lambda>fragment. \<lparr>recursionCount = 0, tagClass = tagClass this,
                                       construction = primitive, tagNumber = tagNumber this,
                                       val = fragment\<rparr>)
                       (splitOctetsCanonically v)
    in (length v \<le> 1000 \<longrightarrow> e = this\<lparr>construction := primitive, val := v\<rparr>)
     \<and> (1000 < length v \<longrightarrow>
           e = this\<lparr>construction := constructed, val := encodeSequence children\<rparr>
         \<and> length children = (length v + 999) div 1000
         \<and> list_all (\<lambda>child. length (val child) = 1000) (butlast children)
         \<and> 0 < length (val (last children)) \<and> length (val (last children)) \<le> 1000
         \<and> concat (map val children) = v
         \<and> encodeSequence children = concat (map (toBytes definite) children))
     \<and> (length v = 2500 \<longrightarrow>
           construction e = constructed
         \<and> map (\<lambda>child. length (val child)) children = [1000, 1000, 500]))"
proof -
  let ?mk = "\<lambda>fragment. \<lparr>recursionCount = 0, tagClass = tagClass this,
                            construction = primitive, tagNumber = tagNumber this,
                            val = fragment\<rparr>"
  let ?children = "map ?mk (splitOctetsCanonically v)"
  have same: "map (\<lambda>fragment. CERElement_new (tagClass this) primitive (tagNumber this) fragment)
                  (splitOctetsCanonically v) = ?children"
    by (rule map_cong [OF refl])
       (simp add: CERElement_new_fragment splitOctetsCanonically_fragment_length)
  have small: "length v \<le> 1000 \<Longrightarrow>
                 cer_set_octetString this v = this\<lparr>construction := primitive, val := v\<rparr>"
    by (simp add: cer_set_octetString_def cer_set_unfragmentedValue.simps)
  have large: "cer_set_octetString this v
                 = this\<lparr>construction := constructed, val := encodeSequence ?children\<rparr>"
    if "1000 < length v"
    using that
    by (simp add: cer_set_octetString_def cer_set_unfragmentedValue.simps [of this v] same)
  have vals: "map val ?children = splitOctetsCanonically v"
    by (simp add: comp_def)
  have lens: "map (\<lambda>child. length (val child)) ?children = map length (splitOctetsCanonically v)"
    by (simp add: comp_def)
  have count: "length ?children = (length v + 999) div 1000"
    by (simp add: splitOctetsCanonically_count)
  have full: "list_all (\<lambda>child. length (val child) = 1000) (butlast ?children)"
    using splitOctetsCanonically_butlast [of v]
    by (simp add: map_butlast [symmetric] list_all_iff)
  have lst: "0 < length (val (last ?children)) \<and> length (val (last ?children)) \<le> 1000"
    if "1000 < length v"
  proof -
    from that have v: "v \<noteq> []" by auto
    then have ne: "splitOctetsCanonically v \<noteq> []"
      by (simp add: splitOctetsCanonically_empty_iff)
    show ?thesis
      using splitOctetsCanonically_last [OF v] by (simp add: last_map [OF ne])
  qed
  have cat: "concat (map val ?children) = v"
    by (simp only: vals splitOctetsCanonically_concat)
  have c2500: "construction (cer_set_octetString this v) = constructed
                 \<and> map (\<lambda>child. length (val child)) ?children = [1000, 1000, 500]"
    if "length v = 2500"
    using that large by (simp add: splitOctetsCanonically_2500 comp_def)
  have enc: "encodeSequence ?children = concat (map (toBytes definite) ?children)"
    unfolding encodeSequence_def
    by (rule arg_cong [where f = concat], rule map_cong [OF refl])
       (auto simp: cer_toBytes_def toBytes_def lengthOctets_def)
  show ?thesis
    unfolding Let_def
    using small large count full lst cat c2500 enc by blast
qed

theorem C7_fragmenting_setter_witness:
  "cer_set_octetString (BERElement_new universal primitive 4) [0x61, 0x62]
     = \<lparr>recursionCount = 0, tagClass = universal, construction = primitive, tagNumber = 4,
        val = [0x61, 0x62]\<rparr>
   \<and> cer_set_octetString (BERElement_new universal primitive 4) (replicate 2500 0x61)
     = \<lparr>recursionCount = 0, tagClass = universal, construction = constructed, tagNumber = 4,
        val = [0x04, 0x82, 0x03, 0xE8] @ replicate 1000 0x61
                @ [0x04, 0x82, 0x03, 0xE8] @ replicate 1000 0x61
                @ [0x04, 0x82, 0x01, 0xF4] @ replicate 500 0x61\<rparr>"
proof -
  let ?element = "BERElement_new universal primitive 4"
  let ?v = "replicate 2500 (0x61 :: byte)"
  have d1: "drop 1000 ?v = replicate 1500 0x61" by simp
  have d2: "drop 1000 (replicate 1500 (0x61 :: byte)) = replicate 500 0x61" by simp
  have s3: "splitOctetsCanonically (replicate 500 (0x61 :: byte)) = [replicate 500 0x61]"
    by (subst splitOctetsCanonically.simps) (simp add: splitOctetsCanonically_Nil)
  have s2: "splitOctetsCanonically (replicate 1500 (0x61 :: byte))
              = [replicate 1000 0x61, replicate 500 0x61]"
    by (subst splitOctetsCanonically.simps) (simp add: s3)
  have s1: "splitOctetsCanonically ?v
              = [replicate 1000 0x61, replicate 1000 0x61, replicate 500 0x61]"
    by (subst splitOctetsCanonically.simps) (simp add: s2)
  have l1: "definiteLengthOctets 1000 = [0x82, 0x03, 0xE8]"
    by (simp add: definiteLengthOctets_two)
  have l2: "definiteLengthOctets 500 = [0x82, 0x01, 0xF4]"
    by (simp add: definiteLengthOctets_two)
  have small: "length [0x61, 0x62 :: byte] \<le> 1000" by simp
  have large: "1000 < length ?v" by simp
  from C7_fragmenting_setter [where this = ?element and v = "[0x61, 0x62]"]
       C7_fragmenting_setter [where this = ?element and v = ?v]
  show ?thesis
    by (simp add: Let_def s1 l1 l2 BERElement_new_def encodeSequence_def cer_toBytes_def
          tagBytes_def)
qed

end
